theory Spec2Isabelle
  imports Complex_Main "HOL-Library.Word" "HOL-Library.Multiset" "HOL-Library.Monad_Syntax"
begin

unbundle bit_operations_syntax

section \<open>Data model (mathlib.h)\<close>

text \<open>
  \<^verbatim>\<open>Complex\<close> (C99 \<^verbatim>\<open>double complex\<close>) is modelled by \<^typ>\<open>complex\<close> and \<^verbatim>\<open>double\<close>
  by \<^typ>\<open>real\<close>: exact arithmetic, with \<^verbatim>\<open>M_PI\<close> read as \<^term>\<open>pi\<close>, \<^verbatim>\<open>cexp\<close> as
  \<^term>\<open>exp\<close>, \<^verbatim>\<open>cabs\<close> as \<^term>\<open>cmod\<close> and \<^verbatim>\<open>conj\<close> as \<^term>\<open>cnj\<close>. Rounding, infinities and NaN are
  outside the model. So are signed zeros, except in \<^verbatim>\<open>carg\<close>, the one function of the
  program whose value depends on the sign of a zero: it gets the sign bits as an
  argument (see \<open>carg\<close> below).

  A \<^verbatim>\<open>size_t\<close> that counts or indexes array elements is a \<^typ>\<open>nat\<close>: such a value is
  bounded by the size of an existing array, so none of the additions on it wraps.
  The two places where the width of a machine integer decides the result are modelled
  with it: \<^verbatim>\<open>next_power_of_2\<close> works on words, and the \<^verbatim>\<open>int\<close> shift \<^verbatim>\<open>1 << s\<close> of
  \<^verbatim>\<open>fft\<close> is undefined from \<open>s = 31\<close> on.

  A C array is a list. An undefined behaviour of the C program (an access outside
  the array, a write through a null pointer, a shift that overflows \<^verbatim>\<open>int\<close>) is the
  result \<^term>\<open>None\<close>; so is a loop that never ends.
\<close>

record FourierCoefficient =
  amplitude :: real
  frequency :: real
  phase :: real

text \<open>
  \<^verbatim>\<open>FourierResult\<close>: the pointer \<^verbatim>\<open>coefficients\<close> is \<^term>\<open>None\<close> when it is \<^verbatim>\<open>NULL\<close>.
  The field \<^verbatim>\<open>count\<close> is named \<open>count_r\<close> here (\<open>count\<close> is a constant of the
  multiset library).
\<close>

record FourierResult =
  coefficients :: "FourierCoefficient list option"
  count_r :: nat

section \<open>Arrays and loops\<close>

definition load :: "'a list \<Rightarrow> nat \<Rightarrow> 'a option" where
  "load a i = (if i < length a then Some (a ! i) else None)"

definition store :: "'a list \<Rightarrow> nat \<Rightarrow> 'a \<Rightarrow> 'a list option" where
  "store a i v = (if i < length a then Some (a[i := v]) else None)"

text \<open>\<^verbatim>\<open>if (p) p[i] = v;\<close> for a pointer \<open>p\<close> that may be \<^verbatim>\<open>NULL\<close>.\<close>

definition store_if :: "'a list option \<Rightarrow> nat \<Rightarrow> 'a \<Rightarrow> 'a list option option" where
  "store_if p i v = (case p of None \<Rightarrow> Some None | Some a \<Rightarrow> map_option Some (store a i v))"

text \<open>\<^verbatim>\<open>memcpy(dst, src, k * sizeof *src)\<close> on arrays of the same element type.\<close>

definition memcpy :: "'a list \<Rightarrow> 'a list \<Rightarrow> nat \<Rightarrow> 'a list option" where
  "memcpy dst src k =
     (if k \<le> length src \<and> k \<le> length dst then Some (take k src @ drop k dst) else None)"

text \<open>\<^verbatim>\<open>for (size_t i = i0; i < n; i++) body\<close>, the body acting on the state \<open>st\<close>.\<close>

function for_loop :: "nat \<Rightarrow> nat \<Rightarrow> (nat \<Rightarrow> 's \<Rightarrow> 's option) \<Rightarrow> 's \<Rightarrow> 's option" where
  "for_loop i n body st =
     (if i < n then
        (case body i st of None \<Rightarrow> None | Some st' \<Rightarrow> for_loop (Suc i) n body st')
      else Some st)"
  by pat_completeness auto
termination
  by (relation "measure (\<lambda>(i, n, body, st). n - i)") auto

section \<open>fft.c\<close>

definition is_power_of_2 :: "nat \<Rightarrow> bool" where
  "is_power_of_2 n \<longleftrightarrow> n > 0 \<and> n AND (n - 1) = 0"

text \<open>
  \<^verbatim>\<open>next_power_of_2\<close> on a \<^verbatim>\<open>size_t\<close> of \<open>LENGTH('a)\<close> bits. The last shift is compiled
  only when \<^verbatim>\<open>SIZE_MAX > 0xFFFFFFFF\<close>, that is when the type has more than 32 bits.
\<close>

definition next_power_of_2 :: "'a::len word \<Rightarrow> 'a word" where
  "next_power_of_2 n0 =
     (if n0 = 0 then 1
      else
        let n = n0 - 1;
            n = n OR drop_bit 1 n;
            n = n OR drop_bit 2 n;
            n = n OR drop_bit 4 n;
            n = n OR drop_bit 8 n;
            n = n OR drop_bit 16 n;
            n = (if 32 < LENGTH('a) then n OR drop_bit 32 n else n)
        in n + 1)"

text \<open>\<^verbatim>\<open>while (temp > 1) { bits++; temp >>= 1; }\<close>\<close>

function count_bits :: "nat \<Rightarrow> nat \<Rightarrow> nat" where
  "count_bits bits temp =
     (if temp > 1 then count_bits (bits + 1) (drop_bit 1 temp) else bits)"
  by pat_completeness auto
termination
  by (relation "measure (\<lambda>(bits, temp). temp)") (auto simp: drop_bit_eq_div)

text \<open>
  \<^verbatim>\<open>for (b = 0; b < bits; b++) { rev = (rev << 1) | (temp_i & 1); temp_i >>= 1; }\<close>,
  the variable \<^verbatim>\<open>rev\<close> written \<open>rev_i\<close>.
\<close>

function reverse_bits :: "nat \<Rightarrow> nat \<Rightarrow> nat \<Rightarrow> nat \<Rightarrow> nat" where
  "reverse_bits bits b rev_i temp_i =
     (if b < bits then
        reverse_bits bits (b + 1) (push_bit 1 rev_i OR (temp_i AND 1)) (drop_bit 1 temp_i)
      else rev_i)"
  by pat_completeness auto
termination
  by (relation "measure (\<lambda>(bits, b, rev_i, temp_i). bits - b)") auto

definition bit_reverse_copy :: "complex list \<Rightarrow> complex list \<Rightarrow> nat \<Rightarrow> complex list option" where
  "bit_reverse_copy input output n =
     (let bits = count_bits 0 n in
      for_loop 0 n
        (\<lambda>i output. do {
           let rev_i = reverse_bits bits 0 0 i;
           x \<leftarrow> load input i;
           store output rev_i x
         }) output)"

definition dft :: "complex list \<Rightarrow> nat \<Rightarrow> complex list \<Rightarrow> complex list option" where
  "dft points n output =
     for_loop 0 n
       (\<lambda>k output. do {
          output \<leftarrow> store output k 0;
          output \<leftarrow> for_loop 0 n
            (\<lambda>j output. do {
               let angle = - 2 * pi * real j * real k / real n;
               p \<leftarrow> load points j;
               x \<leftarrow> load output k;
               store output k (x + p * exp (\<i> * complex_of_real angle))
             }) output;
          x \<leftarrow> load output k;
          store output k (x / of_nat n)
        }) output"

text \<open>
  \<^verbatim>\<open>1 << s\<close>, as in \<^verbatim>\<open>size_t m = 1 << s;\<close>. The result of a shift has the type of its
  promoted left operand, here \<^verbatim>\<open>int\<close> (32 bits), whatever the type of \<open>s\<close> and of the
  variable assigned. \<open>2 ^ s\<close> is representable in \<^verbatim>\<open>int\<close> only for \<open>s < 31\<close>; beyond, the
  behaviour is undefined (C99 6.5.7).
\<close>

definition int_shl_1 :: "nat \<Rightarrow> nat option" where
  "int_shl_1 s = (if s < 31 then Some (push_bit s 1) else None)"

text \<open>The body of the innermost loop of \<^verbatim>\<open>fft\<close>; the state is \<open>(w, output)\<close>.\<close>

definition butterfly ::
  "nat \<Rightarrow> complex \<Rightarrow> nat \<Rightarrow> nat \<Rightarrow> complex \<times> complex list \<Rightarrow> (complex \<times> complex list) option" where
  "butterfly m wm k j = (\<lambda>(w, output). do {
     x \<leftarrow> load output (k + j + m div 2);
     let t = w * x;
     u \<leftarrow> load output (k + j);
     output \<leftarrow> store output (k + j) (u + t);
     output \<leftarrow> store output (k + j + m div 2) (u - t);
     Some (w * wm, output)
   })"

text \<open>\<^verbatim>\<open>for (size_t k = k0; k < n; k += m) { Complex w = 1.0; for (j ...) ... }\<close>\<close>

partial_function (option) fft_blocks ::
  "nat \<Rightarrow> complex \<Rightarrow> nat \<Rightarrow> nat \<Rightarrow> complex list \<Rightarrow> complex list option" where
  "fft_blocks m wm n k output =
     (if k < n then do {
        r \<leftarrow> for_loop 0 (m div 2) (butterfly m wm k) (1, output);
        fft_blocks m wm n (k + m) (snd r)
      }
      else Some output)"

text \<open>\<^verbatim>\<open>for (size_t s = s0; s <= log2(n); s++) { ... }\<close>\<close>

function fft_stages :: "nat \<Rightarrow> nat \<Rightarrow> complex list \<Rightarrow> complex list option" where
  "fft_stages n s output =
     (if real s \<le> log 2 (real n) then
        (case int_shl_1 s of
           None \<Rightarrow> None
         | Some m \<Rightarrow>
             (case fft_blocks m (exp (- 2 * complex_of_real pi * \<i> / of_nat m)) n 0 output of
                None \<Rightarrow> None
              | Some output' \<Rightarrow> fft_stages n (s + 1) output'))
      else Some output)"
  by pat_completeness auto
termination
proof (relation "measure (\<lambda>(n, s, output). nat \<lfloor>log 2 (real n)\<rfloor> + 1 - s)")
  show "wf (measure (\<lambda>(n, s, output). nat \<lfloor>log 2 (real n)\<rfloor> + 1 - s))"
    by simp
next
  fix n s :: nat and out out' :: "complex list"
  assume "real s \<le> log 2 (real n)"
  then have "int s \<le> \<lfloor>log 2 (real n)\<rfloor>"
    by (simp add: le_floor_iff)
  then have "s \<le> nat \<lfloor>log 2 (real n)\<rfloor>"
    by linarith
  then show "((n, s + 1, out'), (n, s, out))
      \<in> measure (\<lambda>(n, s, output). nat \<lfloor>log 2 (real n)\<rfloor> + 1 - s)"
    by simp
qed

definition fft :: "complex list \<Rightarrow> nat \<Rightarrow> complex list \<Rightarrow> complex list option" where
  "fft points n output =
     (if \<not> is_power_of_2 n then dft points n output
      else do {
        output \<leftarrow> bit_reverse_copy points output n;
        output \<leftarrow> fft_stages n 1 output;
        for_loop 0 n
          (\<lambda>i output. do {
             x \<leftarrow> load output i;
             store output i (x / of_nat n)
           }) output
      })"

text \<open>
  \<^verbatim>\<open>ifft\<close>. The outcome of its \<^verbatim>\<open>malloc\<close> is the argument \<open>temp\<close>: \<^term>\<open>None\<close> when the
  allocation fails, and the fresh block otherwise. The result is not tested, and the
  first iteration of the loop that follows writes \<^verbatim>\<open>temp[0]\<close> (\<open>n\<close> is a power of two
  there, so the loop runs). The parameter \<^verbatim>\<open>coefficients\<close> is written \<open>coeffs\<close>.
\<close>

definition ifft ::
  "complex list option \<Rightarrow> complex list \<Rightarrow> nat \<Rightarrow> complex list \<Rightarrow> complex list option" where
  "ifft temp coeffs n output =
     (if \<not> is_power_of_2 n then
        for_loop 0 n
          (\<lambda>i output. do {
             output \<leftarrow> store output i 0;
             for_loop 0 n
               (\<lambda>k output. do {
                  c \<leftarrow> load coeffs k;
                  x \<leftarrow> load output i;
                  store output i
                    (x + c * exp (2 * complex_of_real pi * \<i> * of_nat k * of_nat i / of_nat n))
                }) output
           }) output
      else
        (case temp of
           None \<Rightarrow> None
         | Some temp \<Rightarrow> do {
             temp \<leftarrow> for_loop 0 n
               (\<lambda>i temp. do {
                  c \<leftarrow> load coeffs i;
                  store temp i (cnj c * of_nat n)
                }) temp;
             output \<leftarrow> fft temp n output;
             for_loop 0 n
               (\<lambda>i output. do {
                  x \<leftarrow> load output i;
                  store output i (cnj x)
                }) output
           }))"

section \<open>fourier.c\<close>

definition compare_coeffs_by_amplitude :: "FourierCoefficient \<Rightarrow> FourierCoefficient \<Rightarrow> int" where
  "compare_coeffs_by_amplitude ca cb =
     (if amplitude ca > amplitude cb then - 1
      else if amplitude ca < amplitude cb then 1
      else 0)"

text \<open>
  \<^verbatim>\<open>qsort\<close> belongs to the C library, not to this program, so it is a parameter of
  \<^verbatim>\<open>fourier_analyze\<close>, and the theorems assume of it what the C standard promises: the
  array is permuted, and afterwards no element compares greater than a later one.
\<close>

definition qsort_contract ::
  "(('a \<Rightarrow> 'a \<Rightarrow> int) \<Rightarrow> 'a list \<Rightarrow> 'a list) \<Rightarrow> ('a \<Rightarrow> 'a \<Rightarrow> int) \<Rightarrow> bool" where
  "qsort_contract qsort cmp \<longleftrightarrow>
     (\<forall>xs. mset (qsort cmp xs) = mset xs \<and> sorted_wrt (\<lambda>a b. cmp a b \<le> 0) (qsort cmp xs))"

text \<open>
  \<^verbatim>\<open>carg(z)\<close> is \<^verbatim>\<open>atan2(cimag(z), creal(z))\<close>, with values in the closed interval
  \<open>[- \<pi>, \<pi>]\<close> (C99 7.3.9.1). Where the imaginary part is not zero this is the principal
  argument \<^term>\<open>Arg\<close>. Where it is a zero the result depends on sign bits (C99 F.9.1.4):
  \<^verbatim>\<open>atan2(\<plusminus>0, x)\<close> is \<open>\<plusminus>\<pi>\<close> for \<open>x < 0\<close> and for \<open>x = -0\<close>, and \<open>\<plusminus>0\<close> for \<open>x > 0\<close> and for
  \<open>x = +0\<close>. A complex number over the reals has no signed zeros, so the sign bits of the
  real and of the imaginary part of the \<^verbatim>\<open>double complex\<close> are the first argument; each
  is read only where its part is zero.
\<close>

definition carg :: "bool \<times> bool \<Rightarrow> complex \<Rightarrow> real" where
  "carg sign_bits z =
     (if Im z = 0 then
        (if Re z < 0 \<or> (Re z = 0 \<and> fst sign_bits) then
           (if snd sign_bits then - pi else pi)
         else 0)
      else Arg z)"

text \<open>
  \<^verbatim>\<open>fourier_analyze\<close>. The outcomes of its three calls of \<^verbatim>\<open>malloc\<close> are the arguments
  \<open>m_fft\<close>, \<open>m_all\<close> and \<open>m_res\<close>, in the order of the calls. The three assignments to
  the fields of \<^verbatim>\<open>all_coeffs[i]\<close> are one store of the record. \<open>signs i\<close> are the sign
  bits of the two parts of \<^verbatim>\<open>fft_output[i]\<close>, which the exact arithmetic of the model does
  not determine: the theorems hold for all of them.
\<close>

definition fourier_analyze ::
  "((FourierCoefficient \<Rightarrow> FourierCoefficient \<Rightarrow> int) \<Rightarrow> FourierCoefficient list \<Rightarrow> FourierCoefficient list)
   \<Rightarrow> (nat \<Rightarrow> bool \<times> bool)
   \<Rightarrow> complex list option \<Rightarrow> FourierCoefficient list option \<Rightarrow> FourierCoefficient list option
   \<Rightarrow> complex list \<Rightarrow> nat \<Rightarrow> nat \<Rightarrow> FourierResult option" where
  "fourier_analyze qsort signs m_fft m_all m_res points n_points n_coeffs =
     (let result = \<lparr>coefficients = None, count_r = 0\<rparr> in
      if n_points = 0 \<or> n_coeffs = 0 then Some result
      else
        let n_coeffs = (if n_coeffs > n_points then n_points else n_coeffs) in
        (case m_fft of
           None \<Rightarrow> Some result
         | Some fft_output \<Rightarrow> do {
             fft_output \<leftarrow> fft points n_points fft_output;
             (case m_all of
                None \<Rightarrow> Some result
              | Some all_coeffs \<Rightarrow> do {
                  all_coeffs \<leftarrow> for_loop 0 n_points
                    (\<lambda>i all_coeffs. do {
                       z \<leftarrow> load fft_output i;
                       store all_coeffs i
                         \<lparr>amplitude = cmod z,
                          frequency = (if i \<le> n_points div 2 then real i
                                       else real i - real n_points),
                          phase = carg (signs i) z\<rparr>
                     }) all_coeffs;
                  let all_coeffs =
                    qsort compare_coeffs_by_amplitude (take n_points all_coeffs)
                      @ drop n_points all_coeffs;
                  (case m_res of
                     None \<Rightarrow> Some result
                   | Some res \<Rightarrow> do {
                       res \<leftarrow> memcpy res all_coeffs n_coeffs;
                       Some \<lparr>coefficients = Some res, count_r = n_coeffs\<rparr>
                     })
                })
           }))"

text \<open>
  \<^verbatim>\<open>epicycles_at_time\<close>. The pointers \<^verbatim>\<open>result\<close> and \<^verbatim>\<open>positions\<close> may be \<^verbatim>\<open>NULL\<close>
  (\<^term>\<open>None\<close>). The function returns the sum and leaves the array \<^verbatim>\<open>positions\<close>
  updated: the model returns both.
\<close>

definition epicycles_at_time ::
  "FourierResult option \<Rightarrow> real \<Rightarrow> complex list option
   \<Rightarrow> (complex \<times> complex list option) option" where
  "epicycles_at_time result t positions =
     (if result = None \<or> coefficients (the result) = None \<or> count_r (the result) = 0 then do {
        positions \<leftarrow> store_if positions 0 0;
        Some (0, positions)
      }
      else do {
        positions \<leftarrow> store_if positions 0 0;
        for_loop 0 (count_r (the result))
          (\<lambda>i (cumulative, positions). do {
             c \<leftarrow> load (the (coefficients (the result))) i;
             let contribution =
               complex_of_real (amplitude c)
                 * exp (\<i> * complex_of_real (phase c + t * frequency c));
             let cumulative = cumulative + contribution;
             positions \<leftarrow> store_if positions (i + 1) cumulative;
             Some (cumulative, positions)
           }) (0, positions)
      })"

section \<open>Notions used in the statements\<close>

text \<open>The term that coefficient \<open>c\<close> adds to the sum at time \<open>t\<close>.\<close>

definition contribution :: "real \<Rightarrow> FourierCoefficient \<Rightarrow> complex" where
  "contribution t c =
     complex_of_real (amplitude c) * exp (\<i> * complex_of_real (phase c + t * frequency c))"

definition partial_sum :: "real \<Rightarrow> FourierCoefficient list \<Rightarrow> nat \<Rightarrow> complex" where
  "partial_sum t cs k = (\<Sum>i<k. contribution t (cs ! i))"

text \<open>
  The results that \<^verbatim>\<open>fourier_analyze\<close> hands out: \<^verbatim>\<open>count\<close> is the number of elements
  of \<^verbatim>\<open>coefficients\<close>, and is 0 when the pointer is \<^verbatim>\<open>NULL\<close>.
\<close>

definition analysis_result :: "FourierResult \<Rightarrow> bool" where
  "analysis_result r \<longleftrightarrow>
     (case coefficients r of None \<Rightarrow> count_r r = 0 | Some cs \<Rightarrow> length cs = count_r r)"

definition coeff_list :: "FourierResult \<Rightarrow> FourierCoefficient list" where
  "coeff_list r = (case coefficients r of None \<Rightarrow> [] | Some cs \<Rightarrow> cs)"

definition example_result :: FourierResult where
  "example_result =
     \<lparr>coefficients = Some [\<lparr>amplitude = 2, frequency = 1, phase = 0\<rparr>], count_r = 1\<rparr>"

text \<open>
  The direct sum: entry \<open>k\<close> of the normalised discrete Fourier transform of the first \<open>n\<close>
  points.
\<close>

definition dft_sum :: "complex list \<Rightarrow> nat \<Rightarrow> nat \<Rightarrow> complex" where
  "dft_sum points n k =
     (\<Sum>j<n. points ! j * exp (- 2 * complex_of_real pi * \<i> * of_nat j * of_nat k / of_nat n))
       / of_nat n"

text \<open>
  \<open>brev b i\<close> is \<open>i\<close> with its \<open>b\<close> low bits in reverse order, and \<open>omega m\<close> the
  twiddle factor of a block of size \<open>m\<close>.
\<close>

fun brev :: "nat \<Rightarrow> nat \<Rightarrow> nat" where
  "brev 0 i = 0"
| "brev (Suc b) i = 2 ^ b * (i mod 2) + brev b (i div 2)"

definition omega :: "nat \<Rightarrow> complex" where
  "omega m = exp (- 2 * complex_of_real pi * \<i> / of_nat m)"

text \<open>
  The array after stage \<open>s\<close> of a transform of \<open>2 ^ L\<close> points \<open>x\<close>: block \<open>p div 2 ^ s\<close>
  holds the transform of size \<open>2 ^ s\<close> of the points whose index ends in the reversed
  block number. Stage 0 is the array after the bit-reversal copy.
\<close>

definition stage_val :: "complex list \<Rightarrow> nat \<Rightarrow> nat \<Rightarrow> nat \<Rightarrow> complex" where
  "stage_val x L s p =
     (\<Sum>l<2 ^ s. x ! (l * 2 ^ (L - s) + brev (L - s) (p div 2 ^ s))
                  * omega (2 ^ s) ^ ((p mod 2 ^ s) * l))"

text \<open>What one stage with block size \<open>m\<close> and twiddle factor \<open>wm\<close> leaves at index \<open>p\<close>.\<close>

definition bfly :: "nat \<Rightarrow> complex \<Rightarrow> complex list \<Rightarrow> nat \<Rightarrow> complex" where
  "bfly m wm old p =
     (if p mod m < m div 2 then old ! p + wm ^ (p mod m) * old ! (p + m div 2)
      else old ! (p - m div 2) - wm ^ (p mod m - m div 2) * old ! p)"

text \<open>The even and the odd half of the sum of stage s + 1, block b, index j.\<close>

definition half_sum :: "complex list \<Rightarrow> nat \<Rightarrow> nat \<Rightarrow> nat \<Rightarrow> nat \<Rightarrow> nat \<Rightarrow> complex" where
  "half_sum x c s par b j =
     (\<Sum>l<2 ^ s. x ! ((2 * l + par) * 2 ^ c + brev c b) * omega (2 ^ Suc s) ^ (j * (2 * l)))"

text \<open>
  The array inside a stage, when the blocks before index \<open>k\<close> and the first \<open>j\<close>
  butterflies of the block at \<open>k\<close> are done.
\<close>

definition mid_state :: "nat \<Rightarrow> complex \<Rightarrow> complex list \<Rightarrow> nat \<Rightarrow> nat \<Rightarrow> complex list" where
  "mid_state m wm old k j =
     map (\<lambda>p. if p < k + j \<or> (k + m div 2 \<le> p \<and> p < k + m div 2 + j)
              then bfly m wm old p else old ! p) [0..<length old]"

text \<open>The inverse direct sum, without normalisation.\<close>

definition idft_sum :: "complex list \<Rightarrow> nat \<Rightarrow> nat \<Rightarrow> complex" where
  "idft_sum spectrum n i =
     (\<Sum>k<n. spectrum ! k * exp (2 * complex_of_real pi * \<i> * of_nat k * of_nat i / of_nat n))"

text \<open>
  What \<^verbatim>\<open>malloc(n * sizeof *p)\<close> may return: \<^verbatim>\<open>NULL\<close>, or a block of \<open>n\<close> elements with
  arbitrary contents.
\<close>

definition malloc_ok :: "'a list option \<Rightarrow> nat \<Rightarrow> bool" where
  "malloc_ok m n \<longleftrightarrow> (case m of None \<Rightarrow> True | Some block \<Rightarrow> length block = n)"

text \<open>
  The coefficient of the specification for spectrum index \<open>i\<close>: the modulus, the
  centred frequency index (\<open>i\<close> up to \<open>n div 2\<close>, \<open>i - n\<close> above) and the argument, as
  \<^verbatim>\<open>carg\<close> gives it.
\<close>

definition centered_frequency :: "nat \<Rightarrow> nat \<Rightarrow> int" where
  "centered_frequency n i = (if i \<le> n div 2 then int i else int i - int n)"

definition coefficient ::
  "(nat \<Rightarrow> bool \<times> bool) \<Rightarrow> nat \<Rightarrow> complex list \<Rightarrow> nat \<Rightarrow> FourierCoefficient" where
  "coefficient signs n spectrum i =
     \<lparr>amplitude = cmod (spectrum ! i),
      frequency = real_of_int (centered_frequency n i),
      phase = carg (signs i) (spectrum ! i)\<rparr>"

text \<open>The result that \<^verbatim>\<open>fourier_analyze\<close> starts from and returns on its early exits.\<close>

definition empty_result :: FourierResult where
  "empty_result = \<lparr>coefficients = None, count_r = 0\<rparr>"

text \<open>
  One function that meets the contract of \<^verbatim>\<open>qsort\<close>, and the data of the example runs:
  eight points at the origin, whose coefficients all have amplitude 0; sign bits that
  are all clear; and sign bits that make every imaginary zero a negative zero, as in
  the point \<open>- 1 - 0\<i>\<close>.
\<close>

fun insert_by :: "('a \<Rightarrow> 'a \<Rightarrow> int) \<Rightarrow> 'a \<Rightarrow> 'a list \<Rightarrow> 'a list" where
  "insert_by cmp x [] = [x]"
| "insert_by cmp x (y # ys) = (if cmp x y \<le> 0 then x # y # ys else y # insert_by cmp x ys)"

definition insertion_sort :: "('a \<Rightarrow> 'a \<Rightarrow> int) \<Rightarrow> 'a list \<Rightarrow> 'a list" where
  "insertion_sort cmp xs = foldr (insert_by cmp) xs []"

definition zero_coefficient :: FourierCoefficient where
  "zero_coefficient = \<lparr>amplitude = 0, frequency = 0, phase = 0\<rparr>"

definition example_coefficients :: "FourierCoefficient list" where
  "example_coefficients =
     map (\<lambda>f. \<lparr>amplitude = 0, frequency = f, phase = 0\<rparr>) [0, 1, 2, 3, 4, - 3, - 2, - 1]"

definition positive_zeros :: "nat \<Rightarrow> bool \<times> bool" where
  "positive_zeros = (\<lambda>i. (False, False))"

definition negative_imaginary_zeros :: "nat \<Rightarrow> bool \<times> bool" where
  "negative_imaginary_zeros = (\<lambda>i. (False, True))"

section \<open>Loops and array updates\<close>

declare for_loop.simps [simp del] count_bits.simps [simp del] reverse_bits.simps [simp del]
  fft_stages.simps [simp del]

text \<open>
  The rule for a loop that runs without fault: a predicate that holds of the start
  state and that every iteration carries from index \<open>j\<close> to \<open>j + 1\<close>, returning a state,
  holds of the state the loop returns.
\<close>

lemma for_loop_invariant:
  assumes "I i st" and "i \<le> n"
    and step: "\<And>j s. i \<le> j \<Longrightarrow> j < n \<Longrightarrow> I j s \<Longrightarrow> \<exists>s'. body j s = Some s' \<and> I (Suc j) s'"
  shows "\<exists>s'. for_loop i n body st = Some s' \<and> I n s'"
  using assms
proof (induction "n - i" arbitrary: i st)
  case 0
  then have "i = n" by simp
  with 0 show ?case by (subst for_loop.simps) simp
next
  case (Suc d)
  then have "i < n" by simp
  with Suc.prems obtain s' where s': "body i st = Some s'" "I (Suc i) s'"
    by (meson order_refl)
  have "\<exists>s''. for_loop (Suc i) n body s' = Some s'' \<and> I n s''"
  proof (rule Suc.hyps(1))
    show "d = n - Suc i" using Suc.hyps(2) by simp
    show "I (Suc i) s'" by (rule s')
    show "Suc i \<le> n" using \<open>i < n\<close> by simp
    show "\<exists>s'. body j s = Some s' \<and> I (Suc j) s'" if "Suc i \<le> j" "j < n" "I j s" for j s
      using that by (intro Suc.prems(3)) simp_all
  qed
  with \<open>i < n\<close> s' show ?case
    by (subst for_loop.simps) simp
qed

text \<open>Writing the next element of an array that is filled from the left.\<close>

lemma update_frontier:
  assumes "length xs = k" and "k < length buf"
  shows "(xs @ drop k buf)[k := v] = (xs @ [v]) @ drop (Suc k) buf"
proof -
  have "drop k buf = buf ! k # drop (Suc k) buf"
    using assms(2) by (simp add: Cons_nth_drop_Suc)
  with assms(1) show ?thesis
    by (simp add: list_update_append)
qed

text \<open>
  Three loops of one shape: updating every element in place, filling an array from
  another, and filling it from another with the index at hand.
\<close>

lemma for_loop_map:
  fixes xs :: "'a list"
  assumes "length xs = n"
  shows "for_loop 0 n (\<lambda>i out. do { x \<leftarrow> load out i; store out i (f x) }) xs = Some (map f xs)"
proof -
  let ?body = "\<lambda>i out. do { x \<leftarrow> load out i; store out i (f x) }"
  let ?I = "\<lambda>i out. out = map f (take i xs) @ drop i xs"
  have "\<exists>s'. for_loop 0 n ?body xs = Some s' \<and> ?I n s'"
  proof (rule for_loop_invariant [where I = ?I])
    show "xs = map f (take 0 xs) @ drop 0 xs" by simp
    show "0 \<le> n" by simp
    show "\<exists>s'. ?body j s = Some s' \<and> s' = map f (take (Suc j) xs) @ drop (Suc j) xs"
      if "j < n" and s: "s = map f (take j xs) @ drop j xs" for j s
    proof -
      have j: "j < length xs" using that assms by simp
      have "s ! j = xs ! j"
        unfolding s using j by (simp add: nth_append)
      moreover have "s[j := f (xs ! j)] = (map f (take j xs) @ [f (xs ! j)]) @ drop (Suc j) xs"
        unfolding s using j by (intro update_frontier) simp_all
      ultimately show ?thesis
        using j by (simp add: load_def store_def s take_Suc_conv_app_nth)
    qed
  qed
  with assms show ?thesis by simp
qed

lemma for_loop_fill:
  fixes src :: "'b list" and dst :: "'a list"
  assumes "length src = n" and "length dst = n"
  shows "for_loop 0 n (\<lambda>i out. do { x \<leftarrow> load src i; store out i (f x) }) dst = Some (map f src)"
proof -
  let ?body = "\<lambda>i out. do { x \<leftarrow> load src i; store out i (f x) }"
  let ?I = "\<lambda>i out. out = map f (take i src) @ drop i dst"
  have "\<exists>s'. for_loop 0 n ?body dst = Some s' \<and> ?I n s'"
  proof (rule for_loop_invariant [where I = ?I])
    show "dst = map f (take 0 src) @ drop 0 dst" by simp
    show "0 \<le> n" by simp
    show "\<exists>s'. ?body j s = Some s' \<and> s' = map f (take (Suc j) src) @ drop (Suc j) dst"
      if "j < n" and s: "s = map f (take j src) @ drop j dst" for j s
    proof -
      have j: "j < length src" "j < length dst" using that assms by simp_all
      have "s[j := f (src ! j)] = (map f (take j src) @ [f (src ! j)]) @ drop (Suc j) dst"
        unfolding s using j by (intro update_frontier) simp_all
      then show ?thesis
        using j by (simp add: load_def store_def s take_Suc_conv_app_nth)
    qed
  qed
  with assms show ?thesis by simp
qed

lemma for_loop_tabulate:
  fixes src :: "'b list" and dst :: "'a list"
  assumes "length src = n" and "length dst = n"
  shows "for_loop 0 n (\<lambda>i out. do { x \<leftarrow> load src i; store out i (g i x) }) dst
           = Some (map (\<lambda>i. g i (src ! i)) [0..<n])"
proof -
  let ?body = "\<lambda>i out. do { x \<leftarrow> load src i; store out i (g i x) }"
  let ?I = "\<lambda>i out. out = map (\<lambda>i. g i (src ! i)) [0..<i] @ drop i dst"
  have "\<exists>s'. for_loop 0 n ?body dst = Some s' \<and> ?I n s'"
  proof (rule for_loop_invariant [where I = ?I])
    show "dst = map (\<lambda>i. g i (src ! i)) [0..<0] @ drop 0 dst" by simp
    show "0 \<le> n" by simp
    show "\<exists>s'. ?body j s = Some s' \<and> s' = map (\<lambda>i. g i (src ! i)) [0..<Suc j] @ drop (Suc j) dst"
      if "j < n" and s: "s = map (\<lambda>i. g i (src ! i)) [0..<j] @ drop j dst" for j s
    proof -
      have j: "j < length src" "j < length dst" using that assms by simp_all
      have "s[j := g j (src ! j)] = (map (\<lambda>i. g i (src ! i)) [0..<j] @ [g j (src ! j)]) @ drop (Suc j) dst"
        unfolding s using j by (intro update_frontier) simp_all
      then show ?thesis
        using j by (simp add: load_def store_def s)
    qed
  qed
  with assms show ?thesis by simp
qed

section \<open>The direct transform\<close>

text \<open>
  The inner loop accumulates the sum in \<^verbatim>\<open>output[k]\<close>; the outer loop fills \<^verbatim>\<open>output\<close> from
  the left with the normalised sums.
\<close>

lemma dft_angle:
  "\<i> * complex_of_real (- 2 * pi * real j * real k / real n)
     = - 2 * complex_of_real pi * \<i> * of_nat j * of_nat k / of_nat n"
  by simp

lemma dft_inner:
  fixes points base :: "complex list" and n k :: nat
  defines "acc \<equiv> (\<lambda>j. \<Sum>j'<j. points ! j' * exp (- 2 * complex_of_real pi * \<i> * of_nat j' * of_nat k / of_nat n))"
  assumes "length points = n" and "k < length base"
  shows "for_loop 0 n
            (\<lambda>j output. do {
               let angle = - 2 * pi * real j * real k / real n;
               p \<leftarrow> load points j;
               x \<leftarrow> load output k;
               store output k (x + p * exp (\<i> * complex_of_real angle))
             }) (base[k := 0]) = Some (base[k := acc n])"
proof -
  let ?body = "(\<lambda>j output. do {
               let angle = - 2 * pi * real j * real k / real n;
               p \<leftarrow> load points j;
               x \<leftarrow> load output k;
               store output k (x + p * exp (\<i> * complex_of_real angle))
             })"
  have "\<exists>s'. for_loop 0 n ?body (base[k := 0]) = Some s' \<and> s' = base[k := acc n]"
  proof (rule for_loop_invariant [where I = "\<lambda>j s. s = base[k := acc j]"])
    show "base[k := 0] = base[k := acc 0]"
      by (simp add: acc_def)
    show "0 \<le> n" by simp
    show "\<exists>s'. ?body j s = Some s' \<and> s' = base[k := acc (Suc j)]"
      if "j < n" and "s = base[k := acc j]" for j s
      using that assms(2,3)
      by (simp add: load_def store_def Let_def acc_def mult_ac)
  qed
  then show ?thesis by simp
qed

lemma dft_eval:
  assumes "length points = n" and "length output = n"
  shows "dft points n output = Some (map (dft_sum points n) [0..<n])"
proof -
  let ?body = "(\<lambda>k output. do {
          output \<leftarrow> store output k 0;
          output \<leftarrow> for_loop 0 n
            (\<lambda>j output. do {
               let angle = - 2 * pi * real j * real k / real n;
               p \<leftarrow> load points j;
               x \<leftarrow> load output k;
               store output k (x + p * exp (\<i> * complex_of_real angle))
             }) output;
          x \<leftarrow> load output k;
          store output k (x / of_nat n)
        })"
  let ?I = "\<lambda>k s. s = map (dft_sum points n) [0..<k] @ drop k output"
  have "\<exists>s'. for_loop 0 n ?body output = Some s' \<and> ?I n s'"
  proof (rule for_loop_invariant [where I = ?I])
    show "output = map (dft_sum points n) [0..<0] @ drop 0 output"
      by simp
    show "0 \<le> n" by simp
    show "\<exists>s'. ?body k s = Some s' \<and> s' = map (dft_sum points n) [0..<Suc k] @ drop (Suc k) output"
      if "k < n" and s: "s = map (dft_sum points n) [0..<k] @ drop k output" for k s
    proof -
      have k: "k < length s" "k < length output"
        using that assms(2) by simp_all
      have "s[k := dft_sum points n k] = (map (dft_sum points n) [0..<k] @ [dft_sum points n k]) @ drop (Suc k) output"
        unfolding s using k(2) by (intro update_frontier) simp_all
      then show ?thesis
        using k(1) dft_inner [OF assms(1) k(1)]
        by (simp add: load_def store_def dft_sum_def)
    qed
  qed
  with assms(2) show ?thesis
    by (simp add: dft_def)
qed

section \<open>Bit reversal and the stages of the fast transform\<close>

text \<open>Bit reversal is an involution on the numbers below \<open>2 ^ b\<close>, hence injective there.\<close>

lemma brev_less: "brev b i < 2 ^ b"
proof (induction b arbitrary: i)
  case 0
  show ?case by simp
next
  case (Suc b)
  have "2 ^ b * (i mod 2) \<le> (2::nat) ^ b"
    by simp
  moreover have "brev b (i div 2) < 2 ^ b"
    by (rule Suc)
  ultimately have "2 ^ b * (i mod 2) + brev b (i div 2) < 2 ^ b + 2 ^ b"
    by (rule add_le_less_mono)
  then show ?case by simp
qed

lemma brev_even: "brev (Suc b) (2 * x) = brev b x"
  by simp

lemma brev_odd: "brev (Suc b) (2 * x + 1) = 2 ^ b + brev b x"
  by simp

lemma brev_top: "x < 2 ^ b \<Longrightarrow> y < 2 \<Longrightarrow> brev (Suc b) (x + 2 ^ b * y) = 2 * brev b x + y"
proof (induction b arbitrary: x)
  case 0
  then show ?case by simp
next
  case (Suc b)
  have m: "(x + 2 ^ Suc b * y) mod 2 = x mod 2"
    by (simp add: mult.assoc)
  have d: "(x + 2 ^ Suc b * y) div 2 = x div 2 + 2 ^ b * y"
    by (simp add: mult.assoc)
  have "x div 2 < 2 ^ b"
    using Suc.prems(1) by simp
  then have "brev (Suc b) (x div 2 + 2 ^ b * y) = 2 * brev b (x div 2) + y"
    using Suc.prems(2) by (rule Suc.IH)
  then have "brev (Suc (Suc b)) (x + 2 ^ Suc b * y)
      = 2 ^ Suc b * (x mod 2) + (2 * brev b (x div 2) + y)"
    by (simp only: brev.simps m d)
  also have "\<dots> = 2 * brev (Suc b) x + y"
    by simp
  finally show ?case .
qed

lemma brev_involution: "i < 2 ^ b \<Longrightarrow> brev b (brev b i) = i"
proof (induction b arbitrary: i)
  case 0
  then show ?case by simp
next
  case (Suc b)
  have "i div 2 < 2 ^ b"
    using Suc.prems by simp
  then have ih: "brev b (brev b (i div 2)) = i div 2"
    by (rule Suc.IH)
  have "brev (Suc b) (brev (Suc b) i) = brev (Suc b) (brev b (i div 2) + 2 ^ b * (i mod 2))"
    by (simp add: add.commute)
  also have "\<dots> = 2 * brev b (brev b (i div 2)) + i mod 2"
    by (rule brev_top) (simp_all add: brev_less)
  also have "\<dots> = i"
    by (simp add: ih)
  finally show ?case .
qed

lemma brev_inj: "i < 2 ^ b \<Longrightarrow> j < 2 ^ b \<Longrightarrow> brev b i = brev b j \<Longrightarrow> i = j"
  by (metis brev_involution)

text \<open>The twiddle factors: \<open>omega (2 * h)\<close> is a square root of \<open>omega h\<close> and its \<open>h\<close>-th power is \<open>- 1\<close>.\<close>

lemma omega_double: "0 < h \<Longrightarrow> omega (2 * h) ^ 2 = omega h"
proof -
  assume "0 < h"
  have "omega (2 * h) ^ 2 = exp (of_nat 2 * (- 2 * complex_of_real pi * \<i> / of_nat (2 * h)))"
    unfolding omega_def by (rule exp_of_nat_mult [symmetric])
  also have "of_nat 2 * (- 2 * complex_of_real pi * \<i> / of_nat (2 * h))
      = - 2 * complex_of_real pi * \<i> / of_nat h"
    by simp
  finally show ?thesis by (simp add: omega_def)
qed

lemma omega_half: "0 < h \<Longrightarrow> omega (2 * h) ^ h = - 1"
proof -
  assume "0 < h"
  have "omega (2 * h) ^ h = exp (of_nat h * (- 2 * complex_of_real pi * \<i> / of_nat (2 * h)))"
    unfolding omega_def by (rule exp_of_nat_mult [symmetric])
  also have "of_nat h * (- 2 * complex_of_real pi * \<i> / of_nat (2 * h))
      = - (\<i> * complex_of_real pi)"
    using \<open>0 < h\<close> by simp
  also have "exp (- (\<i> * complex_of_real pi)) = - 1"
    by (simp add: exp_minus)
  finally show ?thesis .
qed

lemma omega_power: "omega n ^ (j * k) = exp (- 2 * complex_of_real pi * \<i> * of_nat j * of_nat k / of_nat n)"
proof -
  have "omega n ^ (j * k) = exp (of_nat (j * k) * (- 2 * complex_of_real pi * \<i> / of_nat n))"
    unfolding omega_def by (rule exp_of_nat_mult [symmetric])
  also have "of_nat (j * k) * (- 2 * complex_of_real pi * \<i> / of_nat n)
      = - 2 * complex_of_real pi * \<i> * of_nat j * of_nat k / of_nat n"
    by simp
  finally show ?thesis .
qed

lemma sum_even_odd:
  fixes f :: "nat \<Rightarrow> complex"
  shows "(\<Sum>l<2 * h. f l) = (\<Sum>l<h. f (2 * l)) + (\<Sum>l<h. f (2 * l + 1))"
  by (induction h) (simp_all add: algebra_simps)

text \<open>
  One stage turns the array of stage \<open>s\<close> into the array of stage \<open>s + 1\<close>: the two halves of
  a block of size \<open>2 ^ (s + 1)\<close> hold the sums over the even and over the odd points of
  the block, and a butterfly adds or subtracts them.
\<close>

lemma stage_val_block:
  assumes "s < L" and "j < 2 ^ s" and "par < 2"
  shows "stage_val x L s ((2 * b + par) * 2 ^ s + j) = half_sum x (L - Suc s) s par b j"
proof -
  define c where "c = L - Suc s"
  have Ls: "L - s = Suc c"
    using assms(1) by (simp add: c_def)
  have dm: "((2 * b + par) * 2 ^ s + j) div 2 ^ s = 2 * b + par"
      "((2 * b + par) * 2 ^ s + j) mod 2 ^ s = j"
    using assms(2) by simp_all
  have br: "brev (Suc c) (2 * b + par) = 2 ^ c * par + brev c b"
    using assms(3) by simp
  have om: "omega (2 ^ s) ^ (j * l) = omega (2 ^ Suc s) ^ (j * (2 * l))" for l
  proof -
    have "omega (2 ^ s) = omega (2 * 2 ^ s) ^ 2"
      by (rule omega_double [symmetric]) simp
    then show ?thesis
      by (simp add: power_mult [symmetric] mult_ac)
  qed
  have ix: "l * 2 ^ Suc c + (2 ^ c * par + brev c b) = (2 * l + par) * 2 ^ c + brev c b" for l
    by (simp add: algebra_simps)
  show ?thesis
    unfolding stage_val_def half_sum_def dm Ls br om ix c_def [symmetric] ..
qed

lemma stage_val_Suc:
  assumes "j < 2 ^ Suc s"
  shows "stage_val x L (Suc s) (b * 2 ^ Suc s + j)
     = half_sum x (L - Suc s) s 0 b j + omega (2 ^ Suc s) ^ j * half_sum x (L - Suc s) s 1 b j"
proof -
  define c where "c = L - Suc s"
  define w where "w = omega (2 ^ Suc s)"
  have dm: "(b * 2 ^ Suc s + j) div 2 ^ Suc s = b" "(b * 2 ^ Suc s + j) mod 2 ^ Suc s = j"
    using assms by simp_all
  have "stage_val x L (Suc s) (b * 2 ^ Suc s + j)
      = (\<Sum>l<2 * 2 ^ s. x ! (l * 2 ^ c + brev c b) * w ^ (j * l))"
    unfolding stage_val_def dm c_def w_def by simp
  also have "\<dots> = (\<Sum>l<2 ^ s. x ! (2 * l * 2 ^ c + brev c b) * w ^ (j * (2 * l)))
                 + (\<Sum>l<2 ^ s. x ! ((2 * l + 1) * 2 ^ c + brev c b) * w ^ (j * (2 * l + 1)))"
    by (rule sum_even_odd)
  also have "(\<Sum>l<2 ^ s. x ! ((2 * l + 1) * 2 ^ c + brev c b) * w ^ (j * (2 * l + 1)))
      = w ^ j * (\<Sum>l<2 ^ s. x ! ((2 * l + 1) * 2 ^ c + brev c b) * w ^ (j * (2 * l)))"
    by (simp add: sum_distrib_left power_add algebra_simps)
  finally show ?thesis
    by (simp add: half_sum_def c_def w_def)
qed

lemma half_sum_shift:
  "half_sum x c s par b (2 ^ s + j) = half_sum x c s par b j"
proof -
  have "omega (2 ^ Suc s) ^ ((2 ^ s + j) * (2 * l)) = omega (2 ^ Suc s) ^ (j * (2 * l))" for l
  proof -
    have "omega (2 ^ Suc s) ^ ((2 ^ s + j) * (2 * l))
        = (omega (2 * 2 ^ s) ^ 2 ^ s) ^ (2 * l) * omega (2 ^ Suc s) ^ (j * (2 * l))"
      by (simp add: power_mult [symmetric] power_add [symmetric] algebra_simps)
    also have "omega (2 * 2 ^ s) ^ 2 ^ s = - 1"
      by (rule omega_half) simp
    finally show ?thesis by simp
  qed
  then show ?thesis
    by (simp add: half_sum_def)
qed

lemma omega_shift: "omega (2 ^ Suc s) ^ (2 ^ s + j) = - (omega (2 ^ Suc s) ^ j)"
proof -
  have "omega (2 ^ Suc s) ^ (2 ^ s + j) = omega (2 * 2 ^ s) ^ 2 ^ s * omega (2 ^ Suc s) ^ j"
    by (simp add: power_add)
  also have "omega (2 * 2 ^ s) ^ 2 ^ s = - 1"
    by (rule omega_half) simp
  finally show ?thesis by simp
qed

lemma stage_step:
  assumes s: "s < L" and p: "p < 2 ^ L"
    and old: "\<And>q. q < 2 ^ L \<Longrightarrow> old ! q = stage_val x L s q"
  shows "bfly (2 ^ Suc s) (omega (2 ^ Suc s)) old p = stage_val x L (Suc s) p"
proof -
  define h :: nat where "h = 2 ^ s"
  define b where "b = p div 2 ^ Suc s"
  define j where "j = p mod 2 ^ Suc s"
  define c where "c = L - Suc s"
  have m: "(2::nat) ^ Suc s = 2 * h" "2 ^ Suc s div 2 = h"
    by (simp_all add: h_def)
  have pj0: "p = b * 2 ^ Suc s + j"
    by (simp only: b_def j_def div_mult_mod_eq)
  then have pj: "p = b * (2 * h) + j"
    by (simp only: m(1))
  have jm: "p mod 2 ^ Suc s = j"
    by (simp only: j_def)
  have j2: "j < 2 ^ Suc s"
    unfolding j_def by simp
  note sv = stage_val_Suc [OF j2, of x L b, folded c_def]
  from j2 have j: "j < 2 * h"
    by (simp only: m(1))
  have L: "(2::nat) ^ L = 2 ^ c * (2 * h)"
    unfolding c_def h_def using s
    by (metis Suc_leI le_add_diff_inverse2 power_Suc power_add)
  have "b < 2 ^ c"
    using p unfolding b_def L m by (simp add: less_mult_imp_div_less)
  then have "Suc b \<le> 2 ^ c"
    by simp
  then have "Suc b * (2 * h) \<le> 2 ^ c * (2 * h)"
    by (rule mult_le_mono1)
  then have block: "b * (2 * h) + 2 * h \<le> 2 ^ L"
    by (simp add: L)
  show ?thesis
  proof (cases "j < h")
    case True
    have 0: "old ! p = half_sum x c s 0 b j"
    proof -
      have "p = (2 * b + 0) * 2 ^ s + j"
        by (simp add: pj h_def)
      moreover have "old ! p = stage_val x L s p"
        using p by (rule old)
      ultimately show ?thesis
        using stage_val_block [of s L j 0 x b] s True by (simp add: h_def c_def)
    qed
    have 1: "old ! (p + h) = half_sum x c s 1 b j"
    proof -
      have q: "p + h = (2 * b + 1) * 2 ^ s + j"
        by (simp add: pj h_def)
      have "p + h < 2 ^ L"
        using block True by (simp add: pj)
      then have "old ! (p + h) = stage_val x L s (p + h)"
        by (rule old)
      then show ?thesis
        unfolding q using stage_val_block [of s L j 1 x b] s True by (simp add: h_def c_def)
    qed
    have "bfly (2 ^ Suc s) (omega (2 ^ Suc s)) old p
        = old ! p + omega (2 ^ Suc s) ^ j * old ! (p + h)"
      unfolding bfly_def jm m(2) using True by simp
    also have "\<dots> = stage_val x L (Suc s) (b * 2 ^ Suc s + j)"
      unfolding sv 0 1 ..
    finally show ?thesis
      using pj0 by simp
  next
    case False
    define j' where "j' = j - h"
    have j': "j = h + j'" "j' < h"
      using False j by (simp_all add: j'_def)
    have 0: "old ! (p - h) = half_sum x c s 0 b j'"
    proof -
      have q: "p - h = (2 * b + 0) * 2 ^ s + j'"
        by (simp add: pj h_def j')
      have "p - h < 2 ^ L"
        using p by simp
      then have "old ! (p - h) = stage_val x L s (p - h)"
        by (rule old)
      then show ?thesis
        unfolding q using stage_val_block [of s L j' 0 x b] s j'(2) by (simp add: h_def c_def)
    qed
    have 1: "old ! p = half_sum x c s 1 b j'"
    proof -
      have q: "p = (2 * b + 1) * 2 ^ s + j'"
        by (simp add: pj h_def j')
      have "old ! p = stage_val x L s p"
        using p by (rule old)
      then show ?thesis
        using stage_val_block [of s L j' 1 x b] s j'(2) q by (simp add: h_def c_def)
    qed
    have "bfly (2 ^ Suc s) (omega (2 ^ Suc s)) old p
        = old ! (p - h) - omega (2 ^ Suc s) ^ j' * old ! p"
      unfolding bfly_def jm m(2) j'_def using False by simp
    also have "\<dots> = half_sum x c s 0 b (2 ^ s + j')
          + omega (2 ^ Suc s) ^ (2 ^ s + j') * half_sum x c s 1 b (2 ^ s + j')"
      unfolding 0 1 half_sum_shift omega_shift by simp
    also have "\<dots> = half_sum x c s 0 b j + omega (2 ^ Suc s) ^ j * half_sum x c s 1 b j"
      by (simp only: j'(1) h_def)
    also have "\<dots> = stage_val x L (Suc s) (b * 2 ^ Suc s + j)"
      by (rule sv [symmetric])
    finally show ?thesis
      using pj0 by simp
  qed
qed

lemma stage_val_0: "p < 2 ^ L \<Longrightarrow> stage_val x L 0 p = x ! brev L p"
  by (simp add: stage_val_def)

lemma stage_val_L: "p < 2 ^ L \<Longrightarrow> stage_val x L L p = (\<Sum>l<2 ^ L. x ! l * omega (2 ^ L) ^ (p * l))"
  by (simp add: stage_val_def)

section \<open>The loops of the fast transform\<close>

text \<open>The bit operations of \<^verbatim>\<open>is_power_of_2\<close> and \<^verbatim>\<open>bit_reverse_copy\<close> in arithmetic.\<close>

lemma shift_or_bit: "push_bit 1 r OR (t AND 1) = 2 * r + t mod 2" for r t :: nat
proof (cases "even t")
  case True
  then show ?thesis by (simp add: and_one_eq)
next
  case False
  then have "t mod 2 = 1" by (simp add: odd_iff_mod_2_eq_one)
  then show ?thesis by (simp add: and_one_eq or_Suc_0_eq)
qed

lemma pow2_and_pred: "(2 ^ L) AND (2 ^ L - 1) = (0::nat)"
  by (metis and.commute and_exp_eq_0_iff_not_bit bit_take_bit_iff
    mask_eq_exp_minus_1 mask_nat_less_exp order_less_irrefl
    take_bit_nat_eq_self_iff)

lemma and_pred_pow2: "n > 0 \<Longrightarrow> n AND (n - 1) = 0 \<Longrightarrow> \<exists>L. n = 2 ^ L" for n :: nat
proof (induction n rule: less_induct)
  case (less n)
  show ?case
  proof (cases "n = 1")
    case True
    then have "n = 2 ^ 0" by simp
    then show ?thesis ..
  next
    case False
    with less.prems(1) have n: "n \<noteq> 0" "n - 1 \<noteq> 0"
      by simp_all
    have "n AND (n - 1) = (n mod 2) * ((n - 1) mod 2) + 2 * ((n div 2) AND ((n - 1) div 2))"
      using n by (subst and_nat_unfold) simp
    with less.prems(2) have half: "(n div 2) AND ((n - 1) div 2) = 0"
      by simp
    show ?thesis
    proof (cases "even n")
      case True
      then obtain k where k: "n = 2 * k" by (elim evenE)
      with n have "k > 0" by simp
      then have "(n - 1) div 2 = k - 1"
        unfolding k by (cases k) simp_all
      with half k have "k AND (k - 1) = 0"
        by simp
      moreover have "k < n"
        using k \<open>k > 0\<close> by simp
      ultimately obtain L where "k = 2 ^ L"
        using less.IH \<open>k > 0\<close> by blast
      then have "n = 2 ^ Suc L"
        by (simp add: k)
      then show ?thesis ..
    next
      case False
      then obtain k where k: "n = 2 * k + 1" by (elim oddE)
      then have "n div 2 = k" "(n - 1) div 2 = k"
        by simp_all
      with half have "k = 0" by simp
      with k \<open>n \<noteq> 1\<close> show ?thesis by simp
    qed
  qed
qed

lemma is_power_of_2_iff: "is_power_of_2 n \<longleftrightarrow> (\<exists>L. n = 2 ^ L)"
  unfolding is_power_of_2_def using and_pred_pow2 [of n] pow2_and_pred by auto

lemma count_bits_pow2: "count_bits b (2 ^ L) = b + L"
proof (induction L arbitrary: b)
  case 0
  show ?case by (subst count_bits.simps) simp
next
  case (Suc L)
  have "(1::nat) < 2 ^ Suc L"
    by (simp add: Suc_lessI)
  then have "count_bits b (2 ^ Suc L) = count_bits (b + 1) (drop_bit 1 (2 ^ Suc L))"
    by (subst count_bits.simps) simp
  also have "drop_bit 1 ((2::nat) ^ Suc L) = 2 ^ L"
    by (simp add: drop_bit_eq_div)
  finally show ?case
    by (simp add: Suc.IH)
qed

lemma reverse_bits_eq:
  "b \<le> bits \<Longrightarrow> reverse_bits bits b r t = r * 2 ^ (bits - b) + brev (bits - b) t"
proof (induction "bits - b" arbitrary: b r t)
  case 0
  then show ?case by (subst reverse_bits.simps) simp
next
  case (Suc d)
  then have b: "b < bits" "bits - b = Suc d" "bits - (b + 1) = d"
    by simp_all
  have "reverse_bits bits b r t
      = reverse_bits bits (b + 1) (push_bit 1 r OR (t AND 1)) (drop_bit 1 t)"
    using b(1) by (subst reverse_bits.simps) simp
  also have "\<dots> = reverse_bits bits (b + 1) (2 * r + t mod 2) (t div 2)"
    by (simp only: shift_or_bit) (simp add: drop_bit_eq_div)
  also have "\<dots> = (2 * r + t mod 2) * 2 ^ d + brev d (t div 2)"
    using Suc.hyps(1) [of "b + 1"] b by simp
  also have "\<dots> = r * 2 ^ Suc d + brev (Suc d) t"
    by (simp add: algebra_simps)
  finally show ?case
    by (simp only: b(2))
qed

lemma reverse_bits_brev: "reverse_bits bits 0 0 i = brev bits i"
  using reverse_bits_eq [of 0 bits 0 i] by simp

text \<open>The copy writes every element of \<^verbatim>\<open>output\<close>: it leaves the array of stage 0.\<close>

lemma bit_reverse_copy_eval:
  assumes "length input = 2 ^ L" and "length output = 2 ^ L"
  shows "bit_reverse_copy input output (2 ^ L) = Some (map (\<lambda>p. input ! brev L p) [0..<2 ^ L])"
proof -
  let ?n = "(2::nat) ^ L"
  let ?body = "\<lambda>i out. do { let rev_i = reverse_bits L 0 0 i; x \<leftarrow> load input i; store out rev_i x }"
  let ?I = "\<lambda>i out. length out = ?n \<and> (\<forall>i'<i. out ! brev L i' = input ! i')"
  have "\<exists>s'. for_loop 0 ?n ?body output = Some s' \<and> ?I ?n s'"
  proof (rule for_loop_invariant [where I = ?I])
    show "length output = ?n \<and> (\<forall>i'<0. output ! brev L i' = input ! i')"
      using assms(2) by simp
    show "0 \<le> ?n" by simp
    show "\<exists>s'. ?body j s = Some s' \<and> length s' = ?n \<and> (\<forall>i'<Suc j. s' ! brev L i' = input ! i')"
      if "j < ?n" and s: "length s = ?n \<and> (\<forall>i'<j. s ! brev L i' = input ! i')" for j s
    proof -
      have r: "brev L j < length s"
        using s by (simp add: brev_less)
      have "s[brev L j := input ! j] ! brev L i' = input ! i'" if "i' < Suc j" for i'
      proof (cases "i' = j")
        case True
        with r show ?thesis by simp
      next
        case False
        with that have "i' < j" by simp
        with \<open>j < ?n\<close> have "brev L i' \<noteq> brev L j"
          using brev_inj [of i' L j] by auto
        with s \<open>i' < j\<close> show ?thesis by simp
      qed
      with r that(1) assms(1) s show ?thesis
        by (simp add: load_def store_def reverse_bits_brev)
    qed
  qed
  then obtain out where out: "for_loop 0 ?n ?body output = Some out" "length out = ?n"
      "\<And>i'. i' < ?n \<Longrightarrow> out ! brev L i' = input ! i'"
    by blast
  have "out = map (\<lambda>p. input ! brev L p) [0..<?n]"
  proof (rule nth_equalityI)
    show "length out = length (map (\<lambda>p. input ! brev L p) [0..<?n])"
      using out(2) by simp
    fix p assume "p < length out"
    then have p: "p < ?n" using out(2) by simp
    have "out ! brev L (brev L p) = input ! brev L p"
      by (rule out(3)) (rule brev_less)
    with p show "out ! p = map (\<lambda>p. input ! brev L p) [0..<?n] ! p"
      by (simp add: brev_involution)
  qed
  with out(1) show ?thesis
    by (simp add: bit_reverse_copy_def count_bits_pow2)
qed

text \<open>
  The butterflies of a block, the blocks of a stage, and the stages. The loop over the
  blocks ends because the block size is positive.
\<close>

lemma length_mid_state [simp]: "length (mid_state m wm old k j) = length old"
  by (simp add: mid_state_def)

lemma mid_state_start: "mid_state m wm old 0 0 = old"
  by (rule nth_equalityI) (auto simp: mid_state_def)

lemma mid_state_block: "mid_state (2 * h) wm old k h = mid_state (2 * h) wm old (k + 2 * h) 0"
  by (auto simp: mid_state_def)

lemma mid_state_end: "mid_state m wm old (length old) 0 = map (bfly m wm old) [0..<length old]"
  by (simp add: mid_state_def)

lemma butterfly_step:
  assumes h: "0 < h" and k: "2 * h dvd k" "k + 2 * h \<le> length old" and j: "j < h"
  shows "butterfly (2 * h) wm k j (wm ^ j, mid_state (2 * h) wm old k j)
           = Some (wm ^ Suc j, mid_state (2 * h) wm old k (Suc j))"
proof -
  let ?m = "2 * h"
  let ?st = "mid_state ?m wm old k j"
  have idx: "k + j < length old" "k + j + h < length old"
    using k(2) j by simp_all
  have hi: "?st ! (k + j + h) = old ! (k + j + h)"
    using idx by (simp add: mid_state_def)
  have lo: "?st ! (k + j) = old ! (k + j)"
    using idx j by (simp add: mid_state_def)
  obtain c where c: "k = 2 * h * c"
    using k(1) by (elim dvdE)
  have mod_lo: "(k + j) mod ?m = j"
    unfolding c using j by simp
  have "(2 * h * c + (j + h)) mod ?m = j + h"
    using j by simp
  then have mod_hi: "(k + j + h) mod ?m = j + h"
    unfolding c by (simp only: add.assoc)
  have new_lo: "bfly ?m wm old (k + j) = old ! (k + j) + wm ^ j * old ! (k + j + h)"
    using j by (simp add: bfly_def mod_lo)
  have new_hi: "bfly ?m wm old (k + j + h) = old ! (k + j) - wm ^ j * old ! (k + j + h)"
    by (simp add: bfly_def mod_hi)
  have "?st[k + j := old ! (k + j) + wm ^ j * old ! (k + j + h),
            k + j + h := old ! (k + j) - wm ^ j * old ! (k + j + h)]
        = mid_state ?m wm old k (Suc j)"
  proof (rule nth_equalityI)
    show "length (?st[k + j := old ! (k + j) + wm ^ j * old ! (k + j + h),
            k + j + h := old ! (k + j) - wm ^ j * old ! (k + j + h)])
        = length (mid_state ?m wm old k (Suc j))"
      by simp
    fix p
    assume "p < length (?st[k + j := old ! (k + j) + wm ^ j * old ! (k + j + h),
            k + j + h := old ! (k + j) - wm ^ j * old ! (k + j + h)])"
    then have p: "p < length old" by simp
    consider "p = k + j" | "p = k + j + h" | "p \<noteq> k + j" "p \<noteq> k + j + h"
      by blast
    then show "?st[k + j := old ! (k + j) + wm ^ j * old ! (k + j + h),
            k + j + h := old ! (k + j) - wm ^ j * old ! (k + j + h)] ! p
        = mid_state ?m wm old k (Suc j) ! p"
    proof cases
      case 1
      with p h show ?thesis
        by (simp add: mid_state_def new_lo)
    next
      case 2
      with p show ?thesis
        by (simp add: mid_state_def new_hi)
    next
      case 3
      then have "(p < k + j \<or> (k + h \<le> p \<and> p < k + h + j))
          \<longleftrightarrow> (p < k + Suc j \<or> (k + h \<le> p \<and> p < k + h + Suc j))"
        by auto
      with 3 p show ?thesis
        by (simp add: mid_state_def)
    qed
  qed
  with idx show ?thesis
    by (simp add: butterfly_def load_def store_def hi lo)
qed

lemma butterfly_loop:
  assumes h: "0 < h" and k: "2 * h dvd k" "k + 2 * h \<le> length old"
  shows "for_loop 0 h (butterfly (2 * h) wm k) (1, mid_state (2 * h) wm old k 0)
           = Some (wm ^ h, mid_state (2 * h) wm old (k + 2 * h) 0)"
proof -
  let ?I = "\<lambda>j s. s = (wm ^ j, mid_state (2 * h) wm old k j)"
  have "\<exists>s'. for_loop 0 h (butterfly (2 * h) wm k) (1, mid_state (2 * h) wm old k 0) = Some s'
          \<and> ?I h s'"
  proof (rule for_loop_invariant [where I = ?I])
    show "(1, mid_state (2 * h) wm old k 0) = (wm ^ 0, mid_state (2 * h) wm old k 0)"
      by simp
    show "0 \<le> h" by simp
    show "\<exists>s'. butterfly (2 * h) wm k j s = Some s' \<and> s' = (wm ^ Suc j, mid_state (2 * h) wm old k (Suc j))"
      if "j < h" and "s = (wm ^ j, mid_state (2 * h) wm old k j)" for j s
      using butterfly_step [OF h k that(1), of wm] that(2) by simp
  qed
  then show ?thesis
    by (simp add: mid_state_block)
qed

lemma fft_blocks_eval:
  assumes h: "0 < h" and n: "2 * h dvd n" "length old = n" and k: "2 * h dvd k" "k \<le> n"
  shows "fft_blocks (2 * h) wm n k (mid_state (2 * h) wm old k 0)
           = Some (map (bfly (2 * h) wm old) [0..<n])"
  using k
proof (induction "n - k" arbitrary: k rule: less_induct)
  case less
  show ?case
  proof (cases "k < n")
    case False
    with less.prems have "k = n" by simp
    then show ?thesis
      by (subst fft_blocks.simps) (simp add: mid_state_end n(2) [symmetric])
  next
    case True
    obtain a where a: "n = 2 * h * a" using n(1) by (elim dvdE)
    obtain c where c: "k = 2 * h * c" using less.prems(1) by (elim dvdE)
    from True h have "c < a" unfolding a c by simp
    then have "Suc c \<le> a" by simp
    then have "2 * h * Suc c \<le> 2 * h * a" by (rule mult_le_mono2)
    then have next_le: "k + 2 * h \<le> n" by (simp add: a c)
    have loop: "for_loop 0 h (butterfly (2 * h) wm k) (1, mid_state (2 * h) wm old k 0)
           = Some (wm ^ h, mid_state (2 * h) wm old (k + 2 * h) 0)"
      using h less.prems(1) next_le by (intro butterfly_loop) (simp_all add: n(2))
    have "fft_blocks (2 * h) wm n (k + 2 * h) (mid_state (2 * h) wm old (k + 2 * h) 0)
           = Some (map (bfly (2 * h) wm old) [0..<n])"
    proof (rule less.hyps)
      show "n - (k + 2 * h) < n - k" using True h by simp
      show "2 * h dvd k + 2 * h" using less.prems(1) by simp
      show "k + 2 * h \<le> n" by (rule next_le)
    qed
    with True loop show ?thesis
      by (subst fft_blocks.simps) simp
  qed
qed

lemma log2_pow2: "log 2 (real ((2::nat) ^ L)) = real L"
  by (simp add: log_nat_power)

lemma int_shl_1_eq: "s < 31 \<Longrightarrow> int_shl_1 s = Some (2 ^ s)"
  by (simp add: int_shl_1_def)

lemma fft_stages_eval:
  assumes L: "L \<le> 30"
  shows "1 \<le> s \<Longrightarrow> s \<le> Suc L \<Longrightarrow>
     fft_stages (2 ^ L) s (map (stage_val x L (s - 1)) [0..<2 ^ L])
       = Some (map (stage_val x L L) [0..<2 ^ L])"
proof (induction "Suc L - s" arbitrary: s)
  case 0
  then have s: "s = Suc L" by simp
  have "\<not> real s \<le> log 2 (real ((2::nat) ^ L))"
    unfolding log2_pow2 s by simp
  then show ?case
    by (subst fft_stages.simps) (simp add: s)
next
  case (Suc d)
  then obtain s' where s': "s = Suc s'" "s' < L"
    by (cases s) simp_all
  let ?n = "(2::nat) ^ L"
  let ?old = "map (stage_val x L s') [0..<?n]"
  have guard: "real s \<le> log 2 (real ?n)"
    unfolding log2_pow2 using s' by simp
  have shl: "int_shl_1 s = Some (2 ^ s)"
    using s' L by (intro int_shl_1_eq) simp
  have wm: "exp (- 2 * complex_of_real pi * \<i> / of_nat (2 ^ s)) = omega (2 ^ s)"
    by (simp add: omega_def)
  have "fft_blocks (2 * 2 ^ s') (omega (2 ^ s)) ?n 0 (mid_state (2 * 2 ^ s') (omega (2 ^ s)) ?old 0 0)
      = Some (map (bfly (2 * 2 ^ s') (omega (2 ^ s)) ?old) [0..<?n])"
  proof (rule fft_blocks_eval)
    show "0 < (2::nat) ^ s'" by simp
    have "(2::nat) ^ Suc s' dvd 2 ^ L"
      using s'(2) by (intro le_imp_power_dvd) simp
    then show "2 * 2 ^ s' dvd ?n" by simp
    show "length ?old = ?n" by simp
    show "2 * 2 ^ s' dvd (0::nat)" by simp
    show "0 \<le> ?n" by simp
  qed
  then have blocks: "fft_blocks (2 ^ s) (omega (2 ^ s)) ?n 0 ?old
      = Some (map (bfly (2 ^ s) (omega (2 ^ s)) ?old) [0..<?n])"
    by (simp add: mid_state_start s'(1))
  have "bfly (2 ^ s) (omega (2 ^ s)) ?old p = stage_val x L s p" if "p < ?n" for p
    unfolding s'(1) using s'(2) that by (rule stage_step) simp
  then have new: "map (bfly (2 ^ s) (omega (2 ^ s)) ?old) [0..<?n] = map (stage_val x L s) [0..<?n]"
    by simp
  have "fft_stages ?n (s + 1) (map (stage_val x L (s + 1 - 1)) [0..<?n])
      = Some (map (stage_val x L L) [0..<?n])"
    using Suc.hyps(2) Suc.prems s' by (intro Suc.hyps(1)) simp_all
  then have rest: "fft_stages ?n (s + 1) (map (stage_val x L s) [0..<?n])
      = Some (map (stage_val x L L) [0..<?n])"
    by simp
  have "fft_stages ?n s ?old = Some (map (stage_val x L L) [0..<?n])"
    by (subst fft_stages.simps) (simp only: guard shl wm blocks new rest if_True option.case)
  then show ?case
    by (simp add: s'(1))
qed

text \<open>
  From \<open>2 ^ 31\<close> points on the stage loop reaches \<open>s = 31\<close>, where the shift is undefined,
  whatever the earlier stages did.
\<close>

lemma fft_stages_overflow:
  assumes L: "31 \<le> L"
  shows "s \<le> 31 \<Longrightarrow> fft_stages (2 ^ L) s out = None"
proof (induction "31 - s" arbitrary: s out)
  case 0
  then have s: "s = 31" by simp
  have "real s \<le> log 2 (real ((2::nat) ^ L))"
    unfolding log2_pow2 s using L by simp
  moreover have "int_shl_1 s = None"
    by (simp add: int_shl_1_def s)
  ultimately show ?case
    by (subst fft_stages.simps) simp
next
  case (Suc d)
  then have s: "s < 31" by simp
  have guard: "real s \<le> log 2 (real ((2::nat) ^ L))"
    unfolding log2_pow2 using L s by simp
  have shl: "int_shl_1 s = Some (2 ^ s)"
    using s by (rule int_shl_1_eq)
  have rest: "fft_stages (2 ^ L) (Suc s) out' = None" for out'
    using Suc.hyps(2) s by (intro Suc.hyps(1)) simp_all
  show ?case
    by (subst fft_stages.simps, simp only: guard shl if_True option.case)
      (simp add: rest split: option.split)
qed

lemma is_power_of_2_pow2: "is_power_of_2 (2 ^ L)"
  by (auto simp: is_power_of_2_iff)

lemma fft_overflow: "31 \<le> L \<Longrightarrow> fft points (2 ^ L) output = None"
  by (cases "bit_reverse_copy points output (2 ^ L)")
    (simp_all add: fft_def is_power_of_2_pow2 fft_stages_overflow)

lemma stage_val_final:
  assumes "p < 2 ^ L"
  shows "stage_val x L L p / of_nat (2 ^ L) = dft_sum x (2 ^ L) p"
proof -
  have "omega (2 ^ L) ^ (p * l) = exp (- 2 * complex_of_real pi * \<i> * of_nat l * of_nat p / of_nat (2 ^ L))" for l
    using omega_power [of "2 ^ L" l p] by (simp add: mult.commute)
  then show ?thesis
    using assms by (simp only: stage_val_L dft_sum_def)
qed

lemma fft_pow2_eval:
  assumes L: "L \<le> 30" and len: "length points = 2 ^ L" "length output = 2 ^ L"
  shows "fft points (2 ^ L) output = Some (map (dft_sum points (2 ^ L)) [0..<2 ^ L])"
proof -
  let ?n = "(2::nat) ^ L"
  have "bit_reverse_copy points output ?n = Some (map (\<lambda>p. points ! brev L p) [0..<?n])"
    using len by (rule bit_reverse_copy_eval)
  also have "map (\<lambda>p. points ! brev L p) [0..<?n] = map (stage_val points L (1 - 1)) [0..<?n]"
    by (simp add: stage_val_0)
  finally have copy: "bit_reverse_copy points output ?n
      = Some (map (stage_val points L (1 - 1)) [0..<?n])" .
  have stages: "fft_stages ?n 1 (map (stage_val points L (1 - 1)) [0..<?n])
      = Some (map (stage_val points L L) [0..<?n])"
    using L by (intro fft_stages_eval) simp_all
  have "for_loop 0 ?n (\<lambda>i out. do { x \<leftarrow> load out i; store out i (x / of_nat ?n) })
          (map (stage_val points L L) [0..<?n])
      = Some (map (\<lambda>v. v / of_nat ?n) (map (stage_val points L L) [0..<?n]))"
    by (rule for_loop_map) simp
  also have "map (\<lambda>v. v / of_nat ?n) (map (stage_val points L L) [0..<?n])
      = map (dft_sum points ?n) [0..<?n]"
    by (simp add: stage_val_final del: of_nat_power)
  finally have norm: "for_loop 0 ?n (\<lambda>i out. do { x \<leftarrow> load out i; store out i (x / of_nat ?n) })
          (map (stage_val points L L) [0..<?n]) = Some (map (dft_sum points ?n) [0..<?n])" .
  show ?thesis
    by (simp only: fft_def is_power_of_2_pow2 not_True_eq_False if_False copy stages norm bind.bind_lunit)
qed

section \<open>The fast transform against the direct one\<close>

text \<open>
  Below \<open>2 ^ 31\<close> points \<^verbatim>\<open>fft\<close> returns the direct sums, on the fast path as on the
  fallback.
\<close>

lemma fft_below_2_31:
  assumes n: "n < 2 ^ 31" and len: "length points = n" "length output = n"
  shows "fft points n output = Some (map (dft_sum points n) [0..<n])"
proof (cases "is_power_of_2 n")
  case False
  then show ?thesis
    using dft_eval [OF len] by (simp add: fft_def)
next
  case True
  then obtain L where L: "n = 2 ^ L"
    by (auto simp: is_power_of_2_iff)
  from n have "(2::nat) ^ L < 2 ^ 31"
    by (simp only: L)
  with one_less_numeral_iff [THEN iffD2] have "L < 31"
    by (rule power_less_imp_less_exp) simp
  then have "L \<le> 30" by simp
  then show ?thesis
    using len unfolding L by (rule fft_pow2_eval)
qed

lemma fft_eq_dft_below_2_31:
  assumes "n < 2 ^ 31" and "length points = n" and "length output = n" and "length output' = n"
  shows "fft points n output = dft points n output'"
    and "fft points n output \<noteq> None"
  using fft_below_2_31 [OF assms(1-3)] dft_eval [OF assms(2,4)] by simp_all

text \<open>Whenever \<^verbatim>\<open>fft\<close> returns, it returns the direct sums.\<close>

lemma fft_Some:
  assumes len: "length points = n" "length output = n"
    and run: "fft points n output = Some spectrum"
  shows "spectrum = map (dft_sum points n) [0..<n]"
proof (cases "is_power_of_2 n")
  case False
  then show ?thesis
    using dft_eval [OF len] run by (simp add: fft_def)
next
  case True
  then obtain L where L: "n = 2 ^ L"
    by (auto simp: is_power_of_2_iff)
  have "L \<le> 30"
  proof (rule ccontr)
    assume "\<not> L \<le> 30"
    then have "31 \<le> L" by simp
    then have "fft points (2 ^ L) output = None"
      by (rule fft_overflow)
    with run show False
      by (simp add: L)
  qed
  then have "fft points (2 ^ L) output = Some (map (dft_sum points (2 ^ L)) [0..<2 ^ L])"
    using len unfolding L by (rule fft_pow2_eval)
  with run show ?thesis
    by (simp add: L)
qed

text \<open>
  C3: for every \<open>n \<ge> 0\<close> and every input of length \<open>n\<close>, the direct-summation forward
  transform \<^verbatim>\<open>dft\<close> returns an output of length \<open>n\<close> whose entry \<open>k\<close> is
  \<open>(1 / n) * (\<Sum>j<n. points[j] * exp (- 2 \<pi> \<i> j k / n))\<close>; for \<open>n = 0\<close> the output is the
  empty spectrum, returned without fault. \<^verbatim>\<open>fft\<close> returns the same output when it falls
  back to \<^verbatim>\<open>dft\<close> (\<open>n\<close> not a power of two) and on its fast path below \<open>2 ^ 31\<close> points.
\<close>

theorem dft_direct_summation:
  assumes "length points = n" and "length output = n"
  shows "\<exists>spectrum. dft points n output = Some spectrum
      \<and> (\<not> is_power_of_2 n \<or> n < 2 ^ 31 \<longrightarrow> fft points n output = Some spectrum)
      \<and> length spectrum = n
      \<and> (\<forall>k<n. spectrum ! k =
            (1 / of_nat n) * (\<Sum>j<n. points ! j
               * exp (- 2 * complex_of_real pi * \<i> * of_nat j * of_nat k / of_nat n)))
      \<and> (n = 0 \<longrightarrow> spectrum = [])"
proof (intro exI conjI allI impI)
  show run: "dft points n output = Some (map (dft_sum points n) [0..<n])"
    using assms by (rule dft_eval)
  show "fft points n output = Some (map (dft_sum points n) [0..<n])"
    if "\<not> is_power_of_2 n \<or> n < 2 ^ 31"
  proof (cases "is_power_of_2 n")
    case False
    with run show ?thesis
      by (simp add: fft_def)
  next
    case True
    with that have "n < 2 ^ 31"
      by simp
    then show ?thesis
      using assms by (rule fft_below_2_31)
  qed
  show "length (map (dft_sum points n) [0..<n]) = n"
    by simp
  show "map (dft_sum points n) [0..<n] ! k =
      (1 / of_nat n) * (\<Sum>j<n. points ! j
          * exp (- 2 * complex_of_real pi * \<i> * of_nat j * of_nat k / of_nat n))"
    if "k < n" for k
    using that by (simp add: dft_sum_def)
  show "map (dft_sum points n) [0..<n] = []" if "n = 0"
    using that by simp
qed

theorem dft_direct_summation_witness:
  "length [1, 2, 3 :: complex] = 3 \<and> length [0, 0, 0 :: complex] = 3
   \<and> (\<exists>spectrum. dft [1, 2, 3] 3 [0, 0, 0] = Some spectrum
      \<and> fft [1, 2, 3] 3 [0, 0, 0] = Some spectrum
      \<and> length spectrum = 3
      \<and> (\<forall>k<3. spectrum ! k =
            (1 / of_nat 3) * (\<Sum>j<3. [1, 2, 3] ! j
               * exp (- 2 * complex_of_real pi * \<i> * of_nat j * of_nat k / of_nat 3))))"
proof -
  have 1: "length [1, 2, 3 :: complex] = 3" and 2: "length [0, 0, 0 :: complex] = 3"
    by simp_all
  have "(3::nat) < 2 ^ 31"
    by simp
  then show ?thesis
    using 1 2 dft_direct_summation [OF 1 2] by blast
qed

text \<open>The empty input, a size that takes the fallback, and the fast path on two points.\<close>

lemma dft_empty: "dft [] 0 [] = Some []"
  using dft_eval [of "[]" 0 "[]"] by simp

lemma three_not_power_of_2: "\<not> is_power_of_2 3"
  by (simp add: is_power_of_2_def)

lemma exp_minus_pi_i: "exp (- (complex_of_real pi * \<i>)) = - 1"
  by (simp add: exp_minus mult.commute)

lemma fft_two_points: "fft [1, 2] 2 [0, 0] = Some [3 / 2, - 1 / 2]"
proof -
  have "fft [1, 2] 2 [0, 0] = Some (map (dft_sum [1, 2] 2) [0..<2])"
    by (rule fft_below_2_31) simp_all
  also have "[0..<2] = [0, 1]"
    by (simp add: upt_rec)
  also have "map (dft_sum [1, 2] 2) [0, 1] = [3 / 2, - 1 / 2]"
    by (simp add: dft_sum_def lessThan_Suc numeral_2_eq_2 exp_minus_pi_i)
  finally show ?thesis .
qed

text \<open>
  C2 (the claim: for every \<open>n\<close> and every input of length \<open>n\<close>, \<^verbatim>\<open>fft\<close> agrees with \<^verbatim>\<open>dft\<close>,
  in particular on the fast path). On \<open>2 ^ 31\<close> points the stage loop of \<^verbatim>\<open>fft\<close> reaches
  \<open>s = 31\<close> and evaluates \<^verbatim>\<open>1 << 31\<close> in \<^verbatim>\<open>int\<close>: \<^verbatim>\<open>fft\<close> has no defined result there, while
  \<^verbatim>\<open>dft\<close> returns the spectrum. Below \<open>2 ^ 31\<close> points the two agree
  (\<open>fft_eq_dft_below_2_31\<close>).
\<close>

theorem fft_int_shift_overflow:
  "fft (replicate (2 ^ 31) 0) (2 ^ 31) (replicate (2 ^ 31) 0) = None
   \<and> dft (replicate (2 ^ 31) 0) (2 ^ 31) (replicate (2 ^ 31) 0) \<noteq> None"
proof
  show "fft (replicate (2 ^ 31) 0) (2 ^ 31) (replicate (2 ^ 31) 0) = None"
    by (rule fft_overflow) simp
  have "dft (replicate (2 ^ 31) 0) (2 ^ 31) (replicate (2 ^ 31) 0)
      = Some (map (dft_sum (replicate (2 ^ 31) 0) (2 ^ 31)) [0..<2 ^ 31])"
    by (rule dft_eval) (simp_all only: length_replicate)
  then show "dft (replicate (2 ^ 31) 0) (2 ^ 31) (replicate (2 ^ 31) 0) \<noteq> None"
    by (simp only: option.distinct not_False_eq_True)
qed

section \<open>The inverse transform\<close>

text \<open>
  The powers of a root of unity other than 1 add up to 0; so the inverse sum of the
  direct sums gives the points back.
\<close>

lemma cis_eq_1_imp:
  assumes "cis t = 1"
  shows "\<exists>m::int. t = of_int m * 2 * pi"
proof -
  from assms have "cos t = 1"
    by (metis cis.sel(1) one_complex.sel(1))
  then show ?thesis
    by (simp add: cos_one_2pi_int)
qed

lemma root_of_unity_neq_1:
  fixes d :: int and n :: nat
  assumes "d \<noteq> 0" and "\<bar>d\<bar> < int n"
  shows "cis (2 * pi * of_int d / of_nat n) \<noteq> 1"
proof
  assume "cis (2 * pi * of_int d / of_nat n) = 1"
  then obtain m :: int where m: "2 * pi * of_int d / of_nat n = of_int m * 2 * pi"
    using cis_eq_1_imp by blast
  have n: "0 < n" using assms by auto
  from m have "2 * pi * real_of_int d = 2 * pi * (real_of_int m * real n)"
    using n by (simp add: field_simps)
  then have "real_of_int d = real_of_int m * real n"
    by simp
  then have "real_of_int d = real_of_int (m * int n)"
    by simp
  then have d: "d = m * int n"
    by (simp only: of_int_eq_iff)
  show False
  proof (cases "m = 0")
    case True
    with d assms(1) show False by simp
  next
    case False
    then have "1 \<le> \<bar>m\<bar>" by simp
    then have "int n \<le> \<bar>m\<bar> * int n"
      by (simp add: mult_le_cancel_right1)
    also have "\<dots> = \<bar>d\<bar>"
      by (simp add: d abs_mult)
    finally show False using assms(2) by simp
  qed
qed

lemma root_of_unity_power:
  fixes d :: int and n :: nat
  assumes "0 < n"
  shows "cis (2 * pi * of_int d / of_nat n) ^ n = 1"
proof -
  have "cis (2 * pi * of_int d / of_nat n) ^ n = cis (real n * (2 * pi * of_int d / of_nat n))"
    by (rule DeMoivre)
  also have "real n * (2 * pi * of_int d / of_nat n) = 2 * pi * of_int d"
    using assms by simp
  also have "cis (2 * pi * of_int d) = 1"
    by (rule cis_multiple_2pi) simp
  finally show ?thesis .
qed

lemma roots_of_unity_sum:
  fixes d :: int and n :: nat
  assumes "d \<noteq> 0" and "\<bar>d\<bar> < int n"
  shows "(\<Sum>k<n. cis (2 * pi * of_int d / of_nat n) ^ k) = 0"
proof -
  let ?z = "cis (2 * pi * of_int d / of_nat n)"
  have n: "0 < n" using assms by auto
  have "?z \<noteq> 1"
    using assms by (rule root_of_unity_neq_1)
  then have "(\<Sum>k<n. ?z ^ k) = (?z ^ n - 1) / (?z - 1)"
    by (rule geometric_sum)
  also have "\<dots> = 0"
    using root_of_unity_power [OF n, of d] by simp
  finally show ?thesis .
qed

lemma exp_as_cis_neg:
  "exp (- 2 * complex_of_real pi * \<i> * of_nat j * of_nat k / of_nat n)
     = cis (- (2 * pi * real j * real k / real n))"
  by (simp add: cis_conv_exp mult_ac)

lemma exp_as_cis_pos:
  "exp (2 * complex_of_real pi * \<i> * of_nat k * of_nat i / of_nat n)
     = cis (2 * pi * real k * real i / real n)"
  by (simp add: cis_conv_exp mult_ac)

lemma twiddle_product:
  "cis (- (2 * pi * real j * real k / real n)) * cis (2 * pi * real k * real i / real n)
     = cis (2 * pi * of_int (int i - int j) / of_nat n) ^ k"
proof -
  have "cis (2 * pi * of_int (int i - int j) / of_nat n) ^ k
      = cis (real k * (2 * pi * of_int (int i - int j) / of_nat n))"
    by (rule DeMoivre)
  also have "real k * (2 * pi * of_int (int i - int j) / of_nat n)
      = - (2 * pi * real j * real k / real n) + 2 * pi * real k * real i / real n"
    by (simp add: diff_divide_distrib algebra_simps)
  finally show ?thesis
    by (simp only: cis_mult)
qed

lemma idft_dft:
  assumes i: "i < n" and len: "length x = n"
  shows "idft_sum (map (dft_sum x n) [0..<n]) n i = x ! i"
proof -
  let ?z = "\<lambda>j. cis (2 * pi * of_int (int i - int j) / of_nat n)"
  have n: "of_nat n \<noteq> (0::complex)"
    using i by simp
  have "idft_sum (map (dft_sum x n) [0..<n]) n i
      = (\<Sum>k<n. dft_sum x n k * cis (2 * pi * real k * real i / real n))"
    unfolding idft_sum_def exp_as_cis_pos by (intro sum.cong) simp_all
  also have "\<dots> = (\<Sum>k<n. \<Sum>j<n. x ! j * ?z j ^ k / of_nat n)"
  proof (intro sum.cong refl)
    fix k
    have "dft_sum x n k * cis (2 * pi * real k * real i / real n)
        = (\<Sum>j<n. x ! j * (cis (- (2 * pi * real j * real k / real n))
              * cis (2 * pi * real k * real i / real n)) / of_nat n)"
      unfolding dft_sum_def exp_as_cis_neg
      by (simp add: sum_distrib_left sum_distrib_right sum_divide_distrib mult_ac)
    then show "dft_sum x n k * cis (2 * pi * real k * real i / real n)
        = (\<Sum>j<n. x ! j * ?z j ^ k / of_nat n)"
      by (simp only: twiddle_product)
  qed
  also have "\<dots> = (\<Sum>j<n. \<Sum>k<n. x ! j * ?z j ^ k / of_nat n)"
    by (rule sum.swap)
  also have "\<dots> = (\<Sum>j<n. x ! j * (\<Sum>k<n. ?z j ^ k) / of_nat n)"
    by (simp add: sum_distrib_left sum_divide_distrib)
  also have "\<dots> = (\<Sum>j<n. if j = i then x ! i else 0)"
  proof (intro sum.cong refl)
    fix j assume "j \<in> {..<n}"
    then have j: "j < n" by simp
    show "x ! j * (\<Sum>k<n. ?z j ^ k) / of_nat n = (if j = i then x ! i else 0)"
    proof (cases "j = i")
      case True
      then show ?thesis using n by simp
    next
      case False
      then have "int i - int j \<noteq> 0" by simp
      moreover have "\<bar>int i - int j\<bar> < int n"
        using i j by simp
      ultimately have "(\<Sum>k<n. ?z j ^ k) = 0"
        by (rule roots_of_unity_sum)
      with False show ?thesis by simp
    qed
  qed
  also have "\<dots> = x ! i"
    using i by simp
  finally show ?thesis .
qed

text \<open>Both paths of \<^verbatim>\<open>ifft\<close> return the inverse sums.\<close>

lemma ifft_inner:
  fixes coeffs base :: "complex list" and n i :: nat
  defines "acc \<equiv> (\<lambda>k. \<Sum>k'<k. coeffs ! k'
      * exp (2 * complex_of_real pi * \<i> * of_nat k' * of_nat i / of_nat n))"
  assumes "length coeffs = n" and "i < length base"
  shows "for_loop 0 n
            (\<lambda>k output. do {
               c \<leftarrow> load coeffs k;
               x \<leftarrow> load output i;
               store output i
                 (x + c * exp (2 * complex_of_real pi * \<i> * of_nat k * of_nat i / of_nat n))
             }) (base[i := 0]) = Some (base[i := acc n])"
proof -
  let ?body = "(\<lambda>k output. do {
               c \<leftarrow> load coeffs k;
               x \<leftarrow> load output i;
               store output i
                 (x + c * exp (2 * complex_of_real pi * \<i> * of_nat k * of_nat i / of_nat n))
             })"
  have "\<exists>s'. for_loop 0 n ?body (base[i := 0]) = Some s' \<and> s' = base[i := acc n]"
  proof (rule for_loop_invariant [where I = "\<lambda>k s. s = base[i := acc k]"])
    show "base[i := 0] = base[i := acc 0]"
      by (simp add: acc_def)
    show "0 \<le> n" by simp
    show "\<exists>s'. ?body k s = Some s' \<and> s' = base[i := acc (Suc k)]"
      if "k < n" and "s = base[i := acc k]" for k s
      using that assms(2,3) by (simp add: load_def store_def acc_def)
  qed
  then show ?thesis by simp
qed

lemma ifft_direct:
  assumes np: "\<not> is_power_of_2 n" and len: "length coeffs = n" "length output = n"
  shows "ifft temp coeffs n output = Some (map (idft_sum coeffs n) [0..<n])"
proof -
  let ?body = "(\<lambda>i output. do {
             output \<leftarrow> store output i 0;
             for_loop 0 n
               (\<lambda>k output. do {
                  c \<leftarrow> load coeffs k;
                  x \<leftarrow> load output i;
                  store output i
                    (x + c * exp (2 * complex_of_real pi * \<i> * of_nat k * of_nat i / of_nat n))
                }) output
           })"
  let ?I = "\<lambda>i s. s = map (idft_sum coeffs n) [0..<i] @ drop i output"
  have "\<exists>s'. for_loop 0 n ?body output = Some s' \<and> ?I n s'"
  proof (rule for_loop_invariant [where I = ?I])
    show "output = map (idft_sum coeffs n) [0..<0] @ drop 0 output"
      by simp
    show "0 \<le> n" by simp
    show "\<exists>s'. ?body i s = Some s' \<and> s' = map (idft_sum coeffs n) [0..<Suc i] @ drop (Suc i) output"
      if "i < n" and s: "s = map (idft_sum coeffs n) [0..<i] @ drop i output" for i s
    proof -
      have i: "i < length s" "i < length output"
        using that len(2) by simp_all
      have "s[i := idft_sum coeffs n i]
          = (map (idft_sum coeffs n) [0..<i] @ [idft_sum coeffs n i]) @ drop (Suc i) output"
        unfolding s using i(2) by (intro update_frontier) simp_all
      then show ?thesis
        using i(1) ifft_inner [OF len(1) i(1)]
        by (simp add: store_def idft_sum_def)
    qed
  qed
  with np len(2) show ?thesis
    by (simp add: ifft_def)
qed

lemma cnj_dft_scaled:
  assumes "0 < n" and "length coeffs = n"
  shows "cnj (dft_sum (map (\<lambda>c. cnj c * of_nat n) coeffs) n i) = idft_sum coeffs n i"
proof -
  have "cnj (dft_sum (map (\<lambda>c. cnj c * of_nat n) coeffs) n i)
      = (\<Sum>j<n. cnj (map (\<lambda>c. cnj c * of_nat n) coeffs ! j
            * exp (- 2 * complex_of_real pi * \<i> * of_nat j * of_nat i / of_nat n))) / of_nat n"
    by (simp add: dft_sum_def)
  also have "(\<Sum>j<n. cnj (map (\<lambda>c. cnj c * of_nat n) coeffs ! j
            * exp (- 2 * complex_of_real pi * \<i> * of_nat j * of_nat i / of_nat n)))
      = (\<Sum>j<n. coeffs ! j * exp (2 * complex_of_real pi * \<i> * of_nat j * of_nat i / of_nat n)
            * of_nat n)"
  proof (intro sum.cong refl)
    fix j assume "j \<in> {..<n}"
    then have "j < length coeffs" using assms(2) by simp
    then show "cnj (map (\<lambda>c. cnj c * of_nat n) coeffs ! j
            * exp (- 2 * complex_of_real pi * \<i> * of_nat j * of_nat i / of_nat n))
        = coeffs ! j * exp (2 * complex_of_real pi * \<i> * of_nat j * of_nat i / of_nat n) * of_nat n"
      unfolding exp_as_cis_neg exp_as_cis_pos by (simp add: cis_cnj)
  qed
  also have "\<dots> / of_nat n = idft_sum coeffs n i"
    using assms(1) by (simp add: idft_sum_def sum_distrib_right [symmetric])
  finally show ?thesis .
qed

lemma ifft_pow2:
  assumes n: "is_power_of_2 n" "n < 2 ^ 31"
    and len: "length coeffs = n" "length output = n" "length temp = n"
  shows "ifft (Some temp) coeffs n output = Some (map (idft_sum coeffs n) [0..<n])"
proof -
  let ?scaled = "map (\<lambda>c. cnj c * of_nat n) coeffs"
  have pos: "0 < n"
    using n(1) by (simp add: is_power_of_2_def)
  have fill: "for_loop 0 n (\<lambda>i temp. do { c \<leftarrow> load coeffs i; store temp i (cnj c * of_nat n) }) temp
      = Some ?scaled"
    using len(1,3) by (rule for_loop_fill)
  have run: "fft ?scaled n output = Some (map (dft_sum ?scaled n) [0..<n])"
    using n(2) len(1,2) by (intro fft_below_2_31) simp_all
  have "for_loop 0 n (\<lambda>i output. do { x \<leftarrow> load output i; store output i (cnj x) })
         (map (dft_sum ?scaled n) [0..<n])
      = Some (map cnj (map (dft_sum ?scaled n) [0..<n]))"
    by (rule for_loop_map) simp
  also have "map cnj (map (dft_sum ?scaled n) [0..<n]) = map (idft_sum coeffs n) [0..<n]"
    using cnj_dft_scaled [OF pos len(1)] by simp
  finally have conj: "for_loop 0 n (\<lambda>i output. do { x \<leftarrow> load output i; store output i (cnj x) })
         (map (dft_sum ?scaled n) [0..<n]) = Some (map (idft_sum coeffs n) [0..<n])" .
  show ?thesis
    using n(1) by (simp add: ifft_def fill run conj)
qed

text \<open>
  The round trip, below \<open>2 ^ 31\<close> points: the inverse transform of the forward transform
  of \<open>x\<close> is \<open>x\<close>, on the conjugation path (powers of two) as on the direct one.
\<close>

lemma ifft_fft_below_2_31:
  assumes n: "n < 2 ^ 31"
    and len: "length x = n" "length output = n" "length output' = n" "length temp = n"
  shows "\<exists>spectrum. fft x n output = Some spectrum \<and> ifft (Some temp) spectrum n output' = Some x"
proof -
  let ?spectrum = "map (dft_sum x n) [0..<n]"
  have run: "fft x n output = Some ?spectrum"
    using n len(1,2) by (rule fft_below_2_31)
  have "ifft (Some temp) ?spectrum n output' = Some (map (idft_sum ?spectrum n) [0..<n])"
  proof (cases "is_power_of_2 n")
    case True
    then show ?thesis
      using n len(3,4) by (intro ifft_pow2) simp_all
  next
    case False
    then show ?thesis
      using len(3) by (intro ifft_direct) simp_all
  qed
  also have "map (idft_sum ?spectrum n) [0..<n] = x"
    by (rule nth_equalityI) (simp_all add: len(1) idft_dft)
  finally show ?thesis
    using run by blast
qed

lemma ifft_two_points: "ifft (Some [0, 0]) [3 / 2, - 1 / 2] 2 [0, 0] = Some [1, 2]"
  using ifft_fft_below_2_31 [of 2 "[1, 2]" "[0, 0]" "[0, 0]" "[0, 0]"]
  by (simp add: fft_two_points)

text \<open>
  C1 (the claim: \<open>ifft (fft x) = x\<close> for every \<open>x\<close> of every length). On \<open>2 ^ 31\<close> values
  neither transform returns: \<^verbatim>\<open>ifft\<close> runs \<^verbatim>\<open>fft\<close> on the conjugated input, whose stage loop
  evaluates \<^verbatim>\<open>1 << 31\<close> in \<^verbatim>\<open>int\<close>.
\<close>

theorem ifft_int_shift_overflow:
  "ifft (Some (replicate (2 ^ 31) 0)) (replicate (2 ^ 31) 0) (2 ^ 31) (replicate (2 ^ 31) 0) = None"
proof -
  let ?n = "(2::nat) ^ 31"
  let ?z = "replicate ?n (0::complex)"
  have fill: "for_loop 0 ?n (\<lambda>i temp. do { c \<leftarrow> load ?z i; store temp i (cnj c * of_nat ?n) }) ?z
      = Some (map (\<lambda>c. cnj c * of_nat ?n) ?z)"
    by (rule for_loop_fill) (simp_all only: length_replicate)
  have run: "fft (map (\<lambda>c. cnj c * of_nat ?n) ?z) ?n ?z = None"
    by (rule fft_overflow) simp
  have "is_power_of_2 ?n"
    by (rule is_power_of_2_pow2)
  then show ?thesis
    unfolding ifft_def by (simp only: not_True_eq_False if_False option.case fill run bind.bind_lunit bind.bind_lzero)
qed

section \<open>The next power of two\<close>

text \<open>
  After the shifts by 1, 2, 4, ... a bit is set exactly when some bit of the input at
  or above it is set: the word is a mask.
\<close>

lemma smear_step:
  fixes a x :: "'a::len word"
  assumes "\<And>i. bit a i \<longleftrightarrow> (\<exists>d<D. bit x (i + d))"
  shows "bit (a OR drop_bit D a) i \<longleftrightarrow> (\<exists>d<2 * D. bit x (i + d))"
proof -
  have "bit (a OR drop_bit D a) i \<longleftrightarrow> (\<exists>d<D. bit x (i + d)) \<or> (\<exists>d<D. bit x (D + i + d))"
    by (simp add: bit_or_iff bit_drop_bit_eq assms)
  also have "\<dots> \<longleftrightarrow> (\<exists>d<2 * D. bit x (i + d))"
  proof
    assume "(\<exists>d<D. bit x (i + d)) \<or> (\<exists>d<D. bit x (D + i + d))"
    then show "\<exists>d<2 * D. bit x (i + d)"
    proof
      assume "\<exists>d<D. bit x (i + d)"
      then obtain d where "d < D" "bit x (i + d)" by blast
      then show ?thesis by (intro exI[of _ d]) simp
    next
      assume "\<exists>d<D. bit x (D + i + d)"
      then obtain d where "d < D" "bit x (D + i + d)" by blast
      then show ?thesis by (intro exI[of _ "D + d"]) (simp add: ac_simps)
    qed
  next
    assume "\<exists>d<2 * D. bit x (i + d)"
    then obtain d where d: "d < 2 * D" "bit x (i + d)" by blast
    show "(\<exists>d<D. bit x (i + d)) \<or> (\<exists>d<D. bit x (D + i + d))"
    proof (cases "d < D")
      case True
      with d show ?thesis by blast
    next
      case False
      with d have "d - D < D" "bit x (D + i + (d - D))" by (simp_all add: ac_simps)
      then show ?thesis by blast
    qed
  qed
  finally show ?thesis .
qed

lemma smear_all:
  fixes x :: "'a::len word"
  assumes L: "LENGTH('a) \<le> 64"
  defines "y \<equiv> (let n = x;
            n = n OR drop_bit 1 n;
            n = n OR drop_bit 2 n;
            n = n OR drop_bit 4 n;
            n = n OR drop_bit 8 n;
            n = n OR drop_bit 16 n;
            n = (if 32 < LENGTH('a) then n OR drop_bit 32 n else n)
        in n)"
  shows "bit y i \<longleftrightarrow> (\<exists>j\<ge>i. bit x j)"
proof -
  define a0 where "a0 = x"
  define a1 where "a1 = a0 OR drop_bit 1 a0"
  define a2 where "a2 = a1 OR drop_bit 2 a1"
  define a3 where "a3 = a2 OR drop_bit 4 a2"
  define a4 where "a4 = a3 OR drop_bit 8 a3"
  define a5 where "a5 = a4 OR drop_bit 16 a4"
  define a6 where "a6 = a5 OR drop_bit 32 a5"
  have b0: "bit a0 i \<longleftrightarrow> (\<exists>d<1. bit x (i + d))" for i
    by (simp add: a0_def)
  have b1: "bit a1 i \<longleftrightarrow> (\<exists>d<2. bit x (i + d))" for i
    unfolding a1_def using smear_step[of a0 1 x i, OF b0] by simp
  have b2: "bit a2 i \<longleftrightarrow> (\<exists>d<4. bit x (i + d))" for i
    unfolding a2_def using smear_step[of a1 2 x i, OF b1] by simp
  have b3: "bit a3 i \<longleftrightarrow> (\<exists>d<8. bit x (i + d))" for i
    unfolding a3_def using smear_step[of a2 4 x i, OF b2] by simp
  have b4: "bit a4 i \<longleftrightarrow> (\<exists>d<16. bit x (i + d))" for i
    unfolding a4_def using smear_step[of a3 8 x i, OF b3] by simp
  have b5: "bit a5 i \<longleftrightarrow> (\<exists>d<32. bit x (i + d))" for i
    unfolding a5_def using smear_step[of a4 16 x i, OF b4] by simp
  have b6: "bit a6 i \<longleftrightarrow> (\<exists>d<64. bit x (i + d))" for i
    unfolding a6_def using smear_step[of a5 32 x i, OF b5] by simp
  have far: "(\<exists>d<D. bit x (i + d)) \<longleftrightarrow> (\<exists>j\<ge>i. bit x j)" if "LENGTH('a) \<le> D" for D
  proof
    assume "\<exists>d<D. bit x (i + d)"
    then show "\<exists>j\<ge>i. bit x j" by (meson le_add1)
  next
    assume "\<exists>j\<ge>i. bit x j"
    then obtain j where j: "i \<le> j" "bit x j" by blast
    then have "j < LENGTH('a)" by (simp add: bit_imp_le_length)
    with j that have "j - i < D" "bit x (i + (j - i))" by simp_all
    then show "\<exists>d<D. bit x (i + d)" by blast
  qed
  show ?thesis
  proof (cases "32 < LENGTH('a)")
    case True
    then have "y = a6"
      by (simp add: y_def Let_def a0_def a1_def a2_def a3_def a4_def a5_def a6_def)
    then show ?thesis using b6[of i] far[of 64] L by simp
  next
    case False
    then have "y = a5"
      by (simp add: y_def Let_def a0_def a1_def a2_def a3_def a4_def a5_def a6_def)
    then show ?thesis using b5[of i] far[of 32] False by simp
  qed
qed

lemma bit_word_ge:
  fixes x :: "'a::len word"
  assumes "bit x j"
  shows "2 ^ j \<le> unat x"
proof (rule ccontr)
  assume "\<not> 2 ^ j \<le> unat x"
  then have "unat x div 2 ^ j = 0"
    by simp
  moreover have "bit (unat x) j"
    using assms by (simp add: bit_unsigned_iff)
  then have "odd (unat x div 2 ^ j)"
    by (simp add: bit_iff_odd) 
  ultimately show False
    by simp
qed

lemma no_high_bits_less: 
  fixes x :: "'a::len word"
  assumes "\<And>j. h \<le> j \<Longrightarrow> \<not> bit x j" 
  shows "unat x < 2 ^ h"
proof -
  have "bit (take_bit h x) i = bit x i" for i
    using assms [of i] by (cases "h \<le> i") (auto simp: bit_take_bit_iff)
  then have "take_bit h x = x"
    by (simp add: bit_eq_iff)
  then have "unat x = take_bit h (unat x)"
    by (metis unsigned_take_bit_eq)
  then show ?thesis
    by (metis take_bit_nat_less_exp)
qed

lemma word_mask_plus_1: 
  assumes "h < LENGTH('a)" shows "unat ((mask h :: 'a::len word) + 1) = 2 ^ h"
proof -
  have "(mask h :: 'a word) + 1 = of_nat (2 ^ h)"
    by (simp add: inc_mask_eq_exp)
  moreover have "unat (of_nat (2 ^ h) :: 'a word) = 2 ^ h mod 2 ^ LENGTH('a)"
    by (rule unat_of_nat)
  moreover have "(2::nat) ^ h mod 2 ^ LENGTH('a) = 2 ^ h"
    using assms by simp
  ultimately show ?thesis by (simp only:)
qed

lemma smear_eq_mask:
  fixes x y :: "'a::len word"
  assumes y: "\<And>i. bit y i \<longleftrightarrow> (\<exists>j\<ge>i. bit x j)"
  defines "h \<equiv> (LEAST h. \<forall>j\<ge>h. \<not> bit x j)"
  shows "y = mask h" and "unat x < 2 ^ h" and "\<And>j. unat x < 2 ^ j \<Longrightarrow> h \<le> j"
proof -
  have top: "\<forall>j\<ge>LENGTH('a). \<not> bit x j"
    by (meson bit_imp_le_length not_less)
  have h: "\<forall>j\<ge>h. \<not> bit x j"
    unfolding h_def by (rule LeastI [of _ "LENGTH('a)"]) (rule top)
  have least: "h \<le> k" if "\<forall>j\<ge>k. \<not> bit x j" for k
    unfolding h_def using that by (rule Least_le)
  have "h \<le> LENGTH('a)"
    by (rule least) (rule top)
  have "bit y i \<longleftrightarrow> bit (mask h :: 'a word) i" for i
  proof -
    have "(\<exists>j\<ge>i. bit x j) \<longleftrightarrow> i < h"
    proof
      assume "\<exists>j\<ge>i. bit x j"
      then obtain j where "i \<le> j" "bit x j" by blast
      with h have "j < h" by (meson not_less)
      with \<open>i \<le> j\<close> show "i < h" by simp
    next
      assume "i < h"
      show "\<exists>j\<ge>i. bit x j"
      proof (rule ccontr)
        assume "\<not> (\<exists>j\<ge>i. bit x j)"
        then have "h \<le> i" by (intro least) blast
        with \<open>i < h\<close> show False by simp
      qed
    qed
    with \<open>h \<le> LENGTH('a)\<close> show ?thesis
      by (auto simp: y bit_mask_iff)
  qed
  then show "y = mask h"
    by (simp add: bit_eq_iff)
  show "unat x < 2 ^ h"
    using h by (intro no_high_bits_less) blast
  show "h \<le> j" if "unat x < 2 ^ j" for j
  proof (rule least, intro allI impI)
    fix i assume "j \<le> i"
    show "\<not> bit x i"
    proof
      assume "bit x i"
      then have "2 ^ i \<le> unat x" by (rule bit_word_ge)
      moreover have "(2::nat) ^ j \<le> 2 ^ i" using \<open>j \<le> i\<close> by simp
      ultimately show False using that by simp
    qed
  qed
qed

text \<open>
  C9: for every \<open>n\<close> up to the largest power of two of the type (\<open>2 ^ (w - 1)\<close> for a
  \<^verbatim>\<open>size_t\<close> of \<open>w \<le> 64\<close> bits), \<^verbatim>\<open>next_power_of_2(n)\<close> is a power of two, is at least
  \<open>n\<close>, and no smaller power of two is at least \<open>n\<close>; and \<^verbatim>\<open>next_power_of_2(0) = 1\<close>.
\<close>

theorem next_power_of_2_least:
  fixes n :: "'a::len word"
  assumes L: "LENGTH('a) \<le> 64" and n: "unat n \<le> 2 ^ (LENGTH('a) - 1)"
  shows "(\<exists>k. unat (next_power_of_2 n) = 2 ^ k \<and> unat n \<le> 2 ^ k
            \<and> (\<forall>j. unat n \<le> 2 ^ j \<longrightarrow> k \<le> j))
         \<and> next_power_of_2 (0 :: 'a word) = 1"
proof (cases "n = 0")
  case True
  then have "unat (next_power_of_2 n) = 2 ^ 0" "unat n \<le> 2 ^ 0"
    by (simp_all add: next_power_of_2_def)
  moreover have "next_power_of_2 (0 :: 'a word) = 1"
    by (simp add: next_power_of_2_def)
  ultimately show ?thesis by blast
next
  case False
  define x where "x = n - 1"
  define y where "y = (let n = x;
            n = n OR drop_bit 1 n;
            n = n OR drop_bit 2 n;
            n = n OR drop_bit 4 n;
            n = n OR drop_bit 8 n;
            n = n OR drop_bit 16 n;
            n = (if 32 < LENGTH('a) then n OR drop_bit 32 n else n)
        in n)"
  define h where "h = (LEAST h. \<forall>j\<ge>h. \<not> bit x j)"
  have res: "next_power_of_2 n = y + 1"
    using False by (simp add: next_power_of_2_def y_def x_def Let_def)
  have ux: "unat x = unat n - 1"
    unfolding x_def using False by (rule unat_minus_one)
  have "unat n \<noteq> 0"
    using False by (simp add: unsigned_eq_0_iff)
  have bits: "bit y i \<longleftrightarrow> (\<exists>j\<ge>i. bit x j)" for i
    unfolding y_def using L by (rule smear_all)
  note m = smear_eq_mask [of y x, OF bits, folded h_def]
  have "unat x < 2 ^ (LENGTH('a) - 1)"
    using n ux \<open>unat n \<noteq> 0\<close> by simp
  then have "h \<le> LENGTH('a) - 1"
    by (rule m(3))
  then have "h < LENGTH('a)"
    by (simp add: Suc_le_lessD less_eq_Suc_le)
  then have "unat (next_power_of_2 n) = 2 ^ h"
    by (simp add: res m(1) word_mask_plus_1)
  moreover have "unat n \<le> 2 ^ h"
    using m(2) ux by simp
  moreover have "h \<le> j" if "unat n \<le> 2 ^ j" for j
    using that ux \<open>unat n \<noteq> 0\<close> by (intro m(3)) simp
  moreover have "next_power_of_2 (0 :: 'a word) = 1"
    by (simp add: next_power_of_2_def)
  ultimately show ?thesis by blast
qed

theorem next_power_of_2_least_witness:
  "LENGTH(64) \<le> 64 \<and> unat (5 :: 64 word) \<le> 2 ^ (LENGTH(64) - 1)
   \<and> (\<exists>k. unat (next_power_of_2 (5 :: 64 word)) = 2 ^ k \<and> unat (5 :: 64 word) \<le> 2 ^ k
            \<and> (\<forall>j. unat (5 :: 64 word) \<le> 2 ^ j \<longrightarrow> k \<le> j))
   \<and> next_power_of_2 (0 :: 64 word) = 1"
  using next_power_of_2_least [of "5 :: 64 word"] by simp

section \<open>The analysis\<close>

text \<open>
  What \<^verbatim>\<open>fourier_analyze\<close> returns: the empty result for degenerate input and after a
  failed allocation, and otherwise the first \<open>min k n\<close> of the sorted coefficients.
\<close>

lemma compare_le_0_iff: "compare_coeffs_by_amplitude a b \<le> 0 \<longleftrightarrow> amplitude b \<le> amplitude a"
  by (simp add: compare_coeffs_by_amplitude_def)

lemma qsort_contractD:
  assumes "qsort_contract qsort cmp"
  shows "mset (qsort cmp xs) = mset xs" and "length (qsort cmp xs) = length xs"
    and "set (qsort cmp xs) = set xs" and "sorted_wrt (\<lambda>a b. cmp a b \<le> 0) (qsort cmp xs)"
proof -
  show m: "mset (qsort cmp xs) = mset xs"
    using assms by (simp add: qsort_contract_def)
  show "length (qsort cmp xs) = length xs"
    using m by (rule mset_eq_length)
  show "set (qsort cmp xs) = set xs"
    using m by (rule mset_eq_setD)
  show "sorted_wrt (\<lambda>a b. cmp a b \<le> 0) (qsort cmp xs)"
    using assms by (simp add: qsort_contract_def)
qed

lemma extract_loop:
  assumes "length spectrum = n" and "length block = n"
  shows "for_loop 0 n
      (\<lambda>i all_coeffs. do {
         z \<leftarrow> load spectrum i;
         store all_coeffs i
           \<lparr>amplitude = cmod z,
            frequency = (if i \<le> n div 2 then real i else real i - real n),
            phase = carg (signs i) z\<rparr>
       }) block = Some (map (coefficient signs n spectrum) [0..<n])"
proof -
  have "(\<lambda>i. \<lparr>amplitude = cmod (spectrum ! i),
            frequency = (if i \<le> n div 2 then real i else real i - real n),
            phase = carg (signs i) (spectrum ! i)\<rparr>) = coefficient signs n spectrum"
    by (rule ext) (simp add: coefficient_def centered_frequency_def)
  then show ?thesis
    using for_loop_tabulate [OF assms, of "\<lambda>i z. \<lparr>amplitude = cmod z,
            frequency = (if i \<le> n div 2 then real i else real i - real n),
            phase = carg (signs i) z\<rparr>"] by simp
qed

lemma fourier_analyze_eval:
  assumes q: "qsort_contract qsort compare_coeffs_by_amplitude"
    and n: "0 < n" "0 < k" "length points = n"
    and blocks: "length b_fft = n" "length b_all = n" "length b_res = min k n"
    and run: "fft points n b_fft = Some spectrum"
  shows "fourier_analyze qsort signs (Some b_fft) (Some b_all) (Some b_res) points n k =
     Some \<lparr>coefficients = Some (take (min k n)
              (qsort compare_coeffs_by_amplitude (map (coefficient signs n spectrum) [0..<n]))),
           count_r = min k n\<rparr>"
proof -
  have sp: "length spectrum = n"
    using fft_Some [OF n(3) blocks(1) run] by simp
  let ?all = "map (coefficient signs n spectrum) [0..<n]"
  let ?sorted = "qsort compare_coeffs_by_amplitude ?all"
  have len: "length ?sorted = n"
    using qsort_contractD(2) [OF q, of ?all] by simp
  have k: "(if n < k then n else k) = min k n"
    by simp
  have copy: "memcpy b_res ?sorted (min k n) = Some (take (min k n) ?sorted)"
    using blocks(3) len by (simp add: memcpy_def)
  show ?thesis
    using n(1,2)
    by (simp add: fourier_analyze_def Let_def run extract_loop [OF sp blocks(2)] k copy
        del: min_less_iff_conj)
qed

lemma fourier_analyze_degenerate:
  "n = 0 \<or> k = 0 \<Longrightarrow> fourier_analyze qsort signs m_fft m_all m_res points n k = Some empty_result"
  by (simp add: fourier_analyze_def empty_result_def)

lemma fourier_analyze_no_memory:
  assumes n: "length points = n" and run: "\<And>b. m_fft = Some b \<Longrightarrow> fft points n b \<noteq> None"
    and blocks: "malloc_ok m_fft n" "malloc_ok m_all n"
    and fail: "m_fft = None \<or> m_all = None \<or> m_res = None"
  shows "fourier_analyze qsort signs m_fft m_all m_res points n k = Some empty_result"
proof (cases "n = 0 \<or> k = 0")
  case True
  then show ?thesis by (rule fourier_analyze_degenerate)
next
  case False
  show ?thesis
  proof (cases m_fft)
    case None
    with False show ?thesis
      by (simp add: fourier_analyze_def empty_result_def)
  next
    case (Some b_fft)
    with run obtain spectrum where sp: "fft points n b_fft = Some spectrum"
      by blast
    have b: "length b_fft = n"
      using blocks(1) Some by (simp add: malloc_ok_def)
    have len: "length spectrum = n"
      using fft_Some [OF n b sp] by simp
    show ?thesis
    proof (cases m_all)
      case None
      with False Some sp show ?thesis
        by (simp add: fourier_analyze_def empty_result_def)
    next
      case all: (Some b_all)
      then have "length b_all = n"
        using blocks(2) by (simp add: malloc_ok_def)
      note ex = extract_loop [OF len this]
      from fail Some all have "m_res = None" by simp
      with False Some sp all ex show ?thesis
        by (simp add: fourier_analyze_def empty_result_def Let_def)
    qed
  qed
qed

text \<open>Insertion sort meets the contract of \<^verbatim>\<open>qsort\<close>.\<close>

lemma mset_insert_by: "mset (insert_by cmp x ys) = add_mset x (mset ys)"
  by (induction ys) simp_all

lemma set_insert_by: "set (insert_by cmp x ys) = insert x (set ys)"
  by (induction ys) auto

lemma sorted_insert_by:
  assumes "sorted_wrt (\<lambda>a b. compare_coeffs_by_amplitude a b \<le> 0) ys"
  shows "sorted_wrt (\<lambda>a b. compare_coeffs_by_amplitude a b \<le> 0)
           (insert_by compare_coeffs_by_amplitude x ys)"
  using assms
proof (induction ys)
  case Nil
  show ?case by simp
next
  case (Cons y ys)
  show ?case
  proof (cases "compare_coeffs_by_amplitude x y \<le> 0")
    case True
    then have "amplitude y \<le> amplitude x"
      by (simp add: compare_le_0_iff)
    moreover have "\<forall>z\<in>set ys. amplitude z \<le> amplitude y"
      using Cons.prems by (simp add: compare_le_0_iff)
    ultimately have "\<forall>z\<in>set ys. amplitude z \<le> amplitude x"
      by auto
    with True Cons.prems show ?thesis
      by (simp add: compare_le_0_iff)
  next
    case False
    then have "amplitude x \<le> amplitude y"
      by (simp add: compare_le_0_iff)
    with False Cons show ?thesis
      by (auto simp: compare_le_0_iff set_insert_by)
  qed
qed

lemma insertion_sort_contract: "qsort_contract insertion_sort compare_coeffs_by_amplitude"
proof -
  have "mset (insertion_sort compare_coeffs_by_amplitude xs) = mset xs" for xs
    by (induction xs) (simp_all add: insertion_sort_def mset_insert_by)
  moreover have "sorted_wrt (\<lambda>a b. compare_coeffs_by_amplitude a b \<le> 0)
      (insertion_sort compare_coeffs_by_amplitude xs)" for xs
    by (induction xs) (simp_all add: insertion_sort_def sorted_insert_by)
  ultimately show ?thesis
    by (simp add: qsort_contract_def)
qed

lemma fourier_analyze_fft_None:
  "0 < n \<Longrightarrow> 0 < k \<Longrightarrow> fft points n b = None \<Longrightarrow>
   fourier_analyze qsort signs (Some b) m_all m_res points n k = None"
  by (simp add: fourier_analyze_def Let_def)

lemma fourier_analyze_Some:
  assumes q: "qsort_contract qsort compare_coeffs_by_amplitude"
    and n: "length points = n"
    and blocks: "malloc_ok m_fft n" "malloc_ok m_all n" "malloc_ok m_res (min k n)"
    and run: "fourier_analyze qsort signs m_fft m_all m_res points n k = Some r"
    and cs: "coefficients r = Some cs"
  shows "\<exists>b spectrum. m_fft = Some b \<and> fft points n b = Some spectrum \<and> length spectrum = n
           \<and> cs = take (min k n)
                (qsort compare_coeffs_by_amplitude (map (coefficient signs n spectrum) [0..<n]))
           \<and> count_r r = min k n \<and> 0 < n \<and> 0 < k"
proof -
  have "\<not> (n = 0 \<or> k = 0)"
  proof
    assume "n = 0 \<or> k = 0"
    then have "fourier_analyze qsort signs m_fft m_all m_res points n k = Some empty_result"
      by (rule fourier_analyze_degenerate)
    with run have "r = empty_result"
      by simp
    with cs show False
      by (simp add: empty_result_def)
  qed
  then have pos: "0 < n" "0 < k"
    by simp_all
  have nofail: "\<not> (m_fft = None \<or> m_all = None \<or> m_res = None)"
  proof
    assume fail: "m_fft = None \<or> m_all = None \<or> m_res = None"
    have "fft points n b \<noteq> None" if "m_fft = Some b" for b
      using fourier_analyze_fft_None [OF pos, of points b qsort signs m_all m_res] run that by auto
    then have "fourier_analyze qsort signs m_fft m_all m_res points n k = Some empty_result"
      using n blocks(1,2) fail by (intro fourier_analyze_no_memory) simp_all
    with run have "r = empty_result"
      by simp
    with cs show False
      by (simp add: empty_result_def)
  qed
  then obtain b_fft b_all b_res where m: "m_fft = Some b_fft" "m_all = Some b_all" "m_res = Some b_res"
    by auto
  obtain spectrum where sp: "fft points n b_fft = Some spectrum"
    using fourier_analyze_fft_None [OF pos, of points b_fft qsort signs m_all m_res] run m by auto
  have len: "length b_fft = n" "length b_all = n" "length b_res = min k n"
    using blocks m by (simp_all add: malloc_ok_def)
  have "length spectrum = n"
    using fft_Some [OF n len(1) sp] by simp
  moreover note fourier_analyze_eval [OF q pos n len sp]
  ultimately show ?thesis
    using run cs m sp pos by auto
qed

text \<open>
  Every result of \<^verbatim>\<open>fourier_analyze\<close> has \<^verbatim>\<open>count\<close> elements behind \<^verbatim>\<open>coefficients\<close>, and
  \<^verbatim>\<open>count = 0\<close> when the pointer is null: the results that \<^verbatim>\<open>epicycles_at_time\<close> is
  stated for.
\<close>

lemma fourier_analyze_analysis_result:
  assumes q: "qsort_contract qsort compare_coeffs_by_amplitude"
    and n: "length points = n"
    and blocks: "malloc_ok m_fft n" "malloc_ok m_all n" "malloc_ok m_res (min k n)"
    and run: "fourier_analyze qsort signs m_fft m_all m_res points n k = Some r"
  shows "analysis_result r"
proof (cases "coefficients r")
  case (Some cs)
  then obtain spectrum where
    "cs = take (min k n) (qsort compare_coeffs_by_amplitude (map (coefficient signs n spectrum) [0..<n]))"
    "count_r r = min k n"
    using fourier_analyze_Some [OF q n blocks run] by blast
  moreover have "length (qsort compare_coeffs_by_amplitude (map (coefficient signs n spectrum) [0..<n])) = n"
    using qsort_contractD(2) [OF q, of "map (coefficient signs n spectrum) [0..<n]"] by simp
  ultimately show ?thesis
    using Some by (simp add: analysis_result_def)
next
  case None
  have "r = empty_result"
  proof (cases "n = 0 \<or> k = 0")
    case True
    then have "fourier_analyze qsort signs m_fft m_all m_res points n k = Some empty_result"
      by (rule fourier_analyze_degenerate)
    with run show ?thesis by simp
  next
    case False
    then have pos: "0 < n" "0 < k" by simp_all
    have defined: "fft points n b \<noteq> None" if "m_fft = Some b" for b
      using fourier_analyze_fft_None [OF pos, of points b qsort signs m_all m_res] run that by auto
    show ?thesis
    proof (cases "m_fft = None \<or> m_all = None \<or> m_res = None")
      case True
      with n defined blocks(1,2)
      have "fourier_analyze qsort signs m_fft m_all m_res points n k = Some empty_result"
        by (intro fourier_analyze_no_memory) simp_all
      with run show ?thesis by simp
    next
      case False
      then obtain b_fft b_all b_res where
        m: "m_fft = Some b_fft" "m_all = Some b_all" "m_res = Some b_res"
        by auto
      obtain spectrum where sp: "fft points n b_fft = Some spectrum"
        using defined [OF m(1)] by auto
      have len: "length b_fft = n" "length b_all = n" "length b_res = min k n"
        using blocks m by (simp_all add: malloc_ok_def)
      from fourier_analyze_eval [OF q pos n len sp] run m None show ?thesis
        by auto
    qed
  qed
  with None show ?thesis
    by (simp add: analysis_result_def empty_result_def)
qed

lemma amplitudes_descending:
  assumes q: "qsort_contract qsort compare_coeffs_by_amplitude" and "length spectrum = n"
  shows "map amplitude (qsort compare_coeffs_by_amplitude (map (coefficient signs n spectrum) [0..<n]))
           = rev (sort (map cmod spectrum))"
proof -
  let ?all = "map (coefficient signs n spectrum) [0..<n]"
  let ?s = "qsort compare_coeffs_by_amplitude ?all"
  have "map amplitude ?all = map (\<lambda>i. cmod (spectrum ! i)) [0..<n]"
    by (simp add: coefficient_def)
  also have "\<dots> = map cmod spectrum"
    by (rule nth_equalityI) (simp_all add: assms(2))
  finally have all: "map amplitude ?all = map cmod spectrum" .
  have "mset (map amplitude ?s) = mset (map amplitude ?all)"
    using qsort_contractD(1) [OF q, of ?all] by (metis mset_map)
  then have m: "mset (rev (map amplitude ?s)) = mset (map cmod spectrum)"
    by (simp only: mset_rev all)
  have "sorted_wrt (\<lambda>a b. amplitude b \<le> amplitude a) ?s"
    using qsort_contractD(4) [OF q, of ?all] by (simp add: compare_le_0_iff)
  then have "sorted_wrt (\<lambda>a b. b \<le> a) (map amplitude ?s)"
    by (simp add: sorted_wrt_map)
  then have "sorted (rev (map amplitude ?s))"
    by (simp add: sorted_wrt_rev)
  with m have "sort (map cmod spectrum) = rev (map amplitude ?s)"
    by (intro properties_for_sort) simp_all
  then show ?thesis
    by simp
qed

text \<open>The analysis of eight points at the origin.\<close>

lemma dft_sum_zeros: "dft_sum (replicate n 0) n k = 0"
proof -
  have "(\<Sum>j<n. replicate n 0 ! j * exp (- 2 * complex_of_real pi * \<i> * of_nat j * of_nat k / of_nat n)) = 0"
    by (intro sum.neutral) simp
  then show ?thesis
    by (simp only: dft_sum_def div_0)
qed

lemma dft_zeros: "map (dft_sum (replicate n 0) n) [0..<n] = replicate n 0"
  by (rule nth_equalityI) (simp_all add: dft_sum_zeros)

lemma upt_8: "[0..<8] = [0, 1, 2, 3, 4, 5, 6, 7]"
  by (simp add: upt_rec)

lemma fourier_analyze_example:
  "fourier_analyze insertion_sort positive_zeros (Some (replicate 8 0)) (Some (replicate 8 zero_coefficient))
      (Some (replicate 8 zero_coefficient)) (replicate 8 0) 8 8
   = Some \<lparr>coefficients = Some example_coefficients, count_r = 8\<rparr>"
proof -
  have sp: "fft (replicate 8 0) 8 (replicate 8 0) = Some (replicate 8 0)"
    using fft_below_2_31 [of 8 "replicate 8 0" "replicate 8 0"]
    by (simp add: dft_zeros)
  have "map (coefficient positive_zeros 8 (replicate 8 0)) [0..<8] = example_coefficients"
    by (simp add: upt_8 coefficient_def centered_frequency_def example_coefficients_def carg_def
        positive_zeros_def)
  moreover have "insertion_sort compare_coeffs_by_amplitude example_coefficients = example_coefficients"
    by (simp add: insertion_sort_def example_coefficients_def compare_coeffs_by_amplitude_def)
  moreover have "length example_coefficients = 8"
    by (simp add: example_coefficients_def)
  ultimately show ?thesis
    using fourier_analyze_eval [OF insertion_sort_contract, of 8 8 "replicate 8 0" "replicate 8 0"
        "replicate 8 zero_coefficient" "replicate 8 zero_coefficient" "replicate 8 0" positive_zeros,
        OF _ _ _ _ _ _ sp]
    by simp
qed

text \<open>
  C4: every coefficient that \<^verbatim>\<open>fourier_analyze\<close> returns belongs to a spectrum index
  \<open>i < n\<close> (it carries the modulus and the argument of \<^verbatim>\<open>fft_output[i]\<close>), and its
  frequency is the centred index: \<open>i\<close> when \<open>i \<le> n div 2\<close> and \<open>i - n\<close> above. When all \<open>n\<close>
  coefficients are requested every index is represented; so for \<open>n = 8\<close> index 5 is
  stored with frequency \<open>- 3\<close>, index 4 with 4 and index 0 with 0.
\<close>

theorem frequency_centered:
  assumes "qsort_contract qsort compare_coeffs_by_amplitude"
    and "length points = n"
    and "malloc_ok m_fft n" and "malloc_ok m_all n" and "malloc_ok m_res (min k n)"
    and "fourier_analyze qsort signs m_fft m_all m_res points n k = Some r"
    and "coefficients r = Some cs"
  shows "\<exists>b spectrum. m_fft = Some b \<and> fft points n b = Some spectrum
     \<and> (\<forall>c\<in>set cs. \<exists>i<n. amplitude c = cmod (spectrum ! i) \<and> phase c = carg (signs i) (spectrum ! i)
            \<and> frequency c = (if i \<le> n div 2 then real i else real i - real n))
     \<and> (n \<le> k \<longrightarrow> (\<forall>i<n. \<exists>c\<in>set cs.
            amplitude c = cmod (spectrum ! i) \<and> phase c = carg (signs i) (spectrum ! i)
            \<and> frequency c = (if i \<le> n div 2 then real i else real i - real n)))
     \<and> (n = 8 \<and> 8 \<le> k \<longrightarrow>
            (\<exists>c\<in>set cs. amplitude c = cmod (spectrum ! 5) \<and> phase c = carg (signs 5) (spectrum ! 5)
               \<and> frequency c = - 3)
          \<and> (\<exists>c\<in>set cs. amplitude c = cmod (spectrum ! 4) \<and> phase c = carg (signs 4) (spectrum ! 4)
               \<and> frequency c = 4)
          \<and> (\<exists>c\<in>set cs. amplitude c = cmod (spectrum ! 0) \<and> phase c = carg (signs 0) (spectrum ! 0)
               \<and> frequency c = 0))"
proof -
  obtain b spectrum where run: "m_fft = Some b" "fft points n b = Some spectrum"
    and cs: "cs = take (min k n)
                (qsort compare_coeffs_by_amplitude (map (coefficient signs n spectrum) [0..<n]))"
    using fourier_analyze_Some [OF assms] by blast
  let ?P = "\<lambda>c i. amplitude c = cmod (spectrum ! i) \<and> phase c = carg (signs i) (spectrum ! i)
            \<and> frequency c = (if i \<le> n div 2 then real i else real i - real n)"
  let ?all = "map (coefficient signs n spectrum) [0..<n]"
  have coeff: "?P (coefficient signs n spectrum i) i" for i
    by (simp add: coefficient_def centered_frequency_def)
  have sorted_set: "set (qsort compare_coeffs_by_amplitude ?all) = set ?all"
    by (rule qsort_contractD(3) [OF assms(1)])
  have part: "\<exists>i<n. ?P c i" if "c \<in> set cs" for c
  proof -
    from that have "c \<in> set (qsort compare_coeffs_by_amplitude ?all)"
      unfolding cs by (rule in_set_takeD)
    then obtain i where "i < n" "c = coefficient signs n spectrum i"
      unfolding sorted_set by auto
    with coeff show ?thesis by blast
  qed
  have whole: "\<exists>c\<in>set cs. ?P c i" if "n \<le> k" "i < n" for i
  proof -
    have "length (qsort compare_coeffs_by_amplitude ?all) = n"
      using qsort_contractD(2) [OF assms(1), of ?all] by simp
    with that(1) have "cs = qsort compare_coeffs_by_amplitude ?all"
      unfolding cs by (simp add: min_absorb2)
    with sorted_set that(2) have "coefficient signs n spectrum i \<in> set cs"
      by simp
    with coeff show ?thesis by blast
  qed
  have eight: "(\<exists>c\<in>set cs. amplitude c = cmod (spectrum ! 5) \<and> phase c = carg (signs 5) (spectrum ! 5)
               \<and> frequency c = - 3)
          \<and> (\<exists>c\<in>set cs. amplitude c = cmod (spectrum ! 4) \<and> phase c = carg (signs 4) (spectrum ! 4)
               \<and> frequency c = 4)
          \<and> (\<exists>c\<in>set cs. amplitude c = cmod (spectrum ! 0) \<and> phase c = carg (signs 0) (spectrum ! 0)
               \<and> frequency c = 0)" if "n = 8 \<and> 8 \<le> k"
    using whole [of 5] whole [of 4] whole [of 0] that by simp
  from run part whole eight show ?thesis
    by blast
qed

theorem frequency_centered_witness:
  "qsort_contract insertion_sort compare_coeffs_by_amplitude
   \<and> length (replicate 8 (0::complex)) = 8
   \<and> malloc_ok (Some (replicate 8 (0::complex))) 8
   \<and> malloc_ok (Some (replicate 8 zero_coefficient)) 8
   \<and> malloc_ok (Some (replicate 8 zero_coefficient)) (min 8 8)
   \<and> fourier_analyze insertion_sort positive_zeros (Some (replicate 8 0)) (Some (replicate 8 zero_coefficient))
        (Some (replicate 8 zero_coefficient)) (replicate 8 0) 8 8
      = Some \<lparr>coefficients = Some example_coefficients, count_r = 8\<rparr>
   \<and> (\<exists>b spectrum. Some (replicate 8 (0::complex)) = Some b \<and> fft (replicate 8 0) 8 b = Some spectrum
     \<and> (\<forall>c\<in>set example_coefficients. \<exists>i<8. amplitude c = cmod (spectrum ! i)
            \<and> phase c = carg (positive_zeros i) (spectrum ! i)
            \<and> frequency c = (if i \<le> 8 div 2 then real i else real i - real 8))
     \<and> (\<exists>c\<in>set example_coefficients. amplitude c = cmod (spectrum ! 5)
            \<and> phase c = carg (positive_zeros 5) (spectrum ! 5) \<and> frequency c = - 3)
     \<and> (\<exists>c\<in>set example_coefficients. amplitude c = cmod (spectrum ! 4)
            \<and> phase c = carg (positive_zeros 4) (spectrum ! 4) \<and> frequency c = 4)
     \<and> (\<exists>c\<in>set example_coefficients. amplitude c = cmod (spectrum ! 0)
            \<and> phase c = carg (positive_zeros 0) (spectrum ! 0) \<and> frequency c = 0))"
proof -
  have 1: "length (replicate 8 (0::complex)) = 8"
    by simp
  have 2: "malloc_ok (Some (replicate 8 (0::complex))) 8"
    and 3: "malloc_ok (Some (replicate 8 zero_coefficient)) 8"
    and 4: "malloc_ok (Some (replicate 8 zero_coefficient)) (min 8 8)"
    by (simp_all add: malloc_ok_def)
  have 5: "coefficients \<lparr>coefficients = Some example_coefficients, count_r = 8\<rparr>
      = Some example_coefficients"
    by simp
  note inst = frequency_centered [OF insertion_sort_contract 1 2 3 4 fourier_analyze_example 5]
  from inst obtain b spectrum where
    "Some (replicate 8 (0::complex)) = Some b \<and> fft (replicate 8 0) 8 b = Some spectrum
     \<and> (\<forall>c\<in>set example_coefficients. \<exists>i<8. amplitude c = cmod (spectrum ! i)
            \<and> phase c = carg (positive_zeros i) (spectrum ! i)
            \<and> frequency c = (if i \<le> 8 div 2 then real i else real i - real 8))
     \<and> (\<exists>c\<in>set example_coefficients. amplitude c = cmod (spectrum ! 5)
            \<and> phase c = carg (positive_zeros 5) (spectrum ! 5) \<and> frequency c = - 3)
     \<and> (\<exists>c\<in>set example_coefficients. amplitude c = cmod (spectrum ! 4)
            \<and> phase c = carg (positive_zeros 4) (spectrum ! 4) \<and> frequency c = 4)
     \<and> (\<exists>c\<in>set example_coefficients. amplitude c = cmod (spectrum ! 0)
            \<and> phase c = carg (positive_zeros 0) (spectrum ! 0) \<and> frequency c = 0)"
    by auto
  then show ?thesis
    using insertion_sort_contract 1 2 3 4 fourier_analyze_example by blast
qed

text \<open>
  \<^verbatim>\<open>carg\<close>: its range, the polar form, and where it differs from the principal argument.
\<close>

lemma Arg_positive_real:
  assumes "Im z = 0" and "0 < Re z"
  shows "Arg z = 0"
proof (rule cis_Arg_unique)
  have "z = complex_of_real (Re z)"
    using assms(1) by (simp add: complex_eq_iff)
  then have "sgn z = complex_of_real (sgn (Re z))"
    by (metis sgn_of_real)
  then show "sgn z = cis 0"
    using assms(2) by simp
  show "- pi < (0::real)" "(0::real) \<le> pi"
    by simp_all
qed

lemma carg_bounded: "- pi \<le> carg sign_bits z \<and> carg sign_bits z \<le> pi"
  using Arg_bounded [of z] by (simp add: carg_def)

lemma carg_cases:
  "carg sign_bits z = Arg z
   \<or> (Im z = 0 \<and> Re z \<le> 0 \<and> (carg sign_bits z = pi \<or> (carg sign_bits z = - pi \<and> snd sign_bits)))"
proof (cases "Im z = 0")
  case False
  then show ?thesis
    by (simp add: carg_def)
next
  case True
  show ?thesis
  proof (cases "Re z < 0 \<or> (Re z = 0 \<and> fst sign_bits)")
    case neg: True
    with True show ?thesis
      by (auto simp: carg_def)
  next
    case pos: False
    show ?thesis
    proof (cases "Re z = 0")
      case zero: True
      with True have "z = 0"
        by (simp add: complex_eq_iff)
      with True pos show ?thesis
        by (simp add: carg_def Arg_zero)
    next
      case False
      with pos have "0 < Re z"
        by auto
      with True pos show ?thesis
        by (simp add: carg_def Arg_positive_real)
    qed
  qed
qed

lemma carg_polar: "z = complex_of_real (cmod z) * cis (carg sign_bits z)"
proof -
  have polar: "z = complex_of_real (cmod z) * cis (Arg z)"
    using rcis_cmod_Arg [of z] by (simp add: rcis_def)
  from carg_cases [of sign_bits z] show ?thesis
  proof
    assume "carg sign_bits z = Arg z"
    with polar show ?thesis
      by simp
  next
    assume real: "Im z = 0 \<and> Re z \<le> 0
      \<and> (carg sign_bits z = pi \<or> (carg sign_bits z = - pi \<and> snd sign_bits))"
    then have "cis (carg sign_bits z) = - 1"
      by (auto simp: complex_eq_iff)
    moreover have "cmod z = - Re z"
      using real by (simp add: cmod_eq_Re)
    moreover have "z = complex_of_real (Re z)"
      using real by (simp add: complex_eq_iff)
    ultimately show ?thesis
      by simp
  qed
qed

text \<open>The analysis of the single point \<open>- 1 - 0\<i>\<close>.\<close>

lemma fft_minus_one: "fft [- 1] 1 [0] = Some [- 1]"
proof -
  have "fft [- 1] 1 [0] = Some (map (dft_sum [- 1] 1) [0..<1])"
    by (rule fft_below_2_31) simp_all
  also have "map (dft_sum [- 1] 1) [0..<1] = [- 1]"
    by (simp add: dft_sum_def)
  finally show ?thesis .
qed

lemma fourier_analyze_minus_one:
  "fourier_analyze insertion_sort negative_imaginary_zeros (Some [0]) (Some [zero_coefficient])
      (Some [zero_coefficient]) [- 1] 1 1
   = Some \<lparr>coefficients = Some [\<lparr>amplitude = 1, frequency = 0, phase = - pi\<rparr>], count_r = 1\<rparr>"
proof -
  have "map (coefficient negative_imaginary_zeros 1 [- 1]) [0..<1]
      = [\<lparr>amplitude = 1, frequency = 0, phase = - pi\<rparr>]"
    by (simp add: coefficient_def centered_frequency_def carg_def negative_imaginary_zeros_def)
  moreover have "insertion_sort compare_coeffs_by_amplitude [\<lparr>amplitude = 1, frequency = 0, phase = - pi\<rparr>]
      = [\<lparr>amplitude = 1, frequency = 0, phase = - pi\<rparr>]"
    by (simp add: insertion_sort_def)
  ultimately show ?thesis
    using fourier_analyze_eval [OF insertion_sort_contract, where n = 1 and k = 1
        and points = "[- 1]" and b_fft = "[0]" and b_all = "[zero_coefficient]"
        and b_res = "[zero_coefficient]" and spectrum = "[- 1]"
        and signs = negative_imaginary_zeros, OF _ _ _ _ _ _ fft_minus_one]
    by simp
qed

text \<open>
  C8, as stated, fails at the lower end of the interval. For the single point
  \<open>- 1 - 0\<i>\<close> (\<^verbatim>\<open>CMPLX(-1.0, -0.0)\<close>) \<^verbatim>\<open>fft\<close> copies the point, runs no stage and divides by
  1, so \<^verbatim>\<open>fft_output[0]\<close> is \<open>- 1\<close> with a negative zero as imaginary part, and
  \<^verbatim>\<open>carg\<close> returns \<open>- \<pi>\<close>, which is not in \<open>(- \<pi>, \<pi>]\<close>.
\<close>

theorem phase_minus_pi:
  "fft [- 1] 1 [0] = Some [- 1]
   \<and> fourier_analyze insertion_sort negative_imaginary_zeros (Some [0]) (Some [zero_coefficient])
        (Some [zero_coefficient]) [- 1] 1 1
      = Some \<lparr>coefficients = Some [\<lparr>amplitude = 1, frequency = 0, phase = - pi\<rparr>], count_r = 1\<rparr>
   \<and> \<not> (- pi < phase \<lparr>amplitude = 1, frequency = 0, phase = - pi\<rparr>)"
  using fft_minus_one fourier_analyze_minus_one by simp

text \<open>
  C8, amended: every coefficient of every result of \<^verbatim>\<open>fourier_analyze\<close> has an amplitude
  that is at least 0 and is the modulus of a spectrum entry, an integer-valued frequency,
  and a phase that is \<^verbatim>\<open>carg\<close> of that entry and lies in the closed interval
  \<open>[- \<pi>, \<pi>]\<close>. The phase is an argument of the entry (the entry is
  \<open>amplitude \<cdot> e\<^sup>i\<^sup>\<cdot>\<^sup>p\<^sup>h\<^sup>a\<^sup>s\<^sup>e\<close>). It is the principal argument, in \<open>(- \<pi>, \<pi>]\<close>, except possibly where
  the entry has a zero imaginary part and a real part that is not positive: there it is
  \<open>\<pi>\<close>, or \<open>- \<pi>\<close> when the imaginary part is a negative zero.
\<close>

theorem coefficient_invariants:
  assumes "qsort_contract qsort compare_coeffs_by_amplitude"
    and "length points = n"
    and "malloc_ok m_fft n" and "malloc_ok m_all n" and "malloc_ok m_res (min k n)"
    and "fourier_analyze qsort signs m_fft m_all m_res points n k = Some r"
    and "coefficients r = Some cs"
  shows "\<exists>b spectrum. m_fft = Some b \<and> fft points n b = Some spectrum
     \<and> (\<forall>c\<in>set cs. 0 \<le> amplitude c \<and> frequency c \<in> \<int> \<and> - pi \<le> phase c \<and> phase c \<le> pi
            \<and> (\<exists>i<n. amplitude c = cmod (spectrum ! i)
                 \<and> phase c = carg (signs i) (spectrum ! i)
                 \<and> spectrum ! i = complex_of_real (amplitude c) * cis (phase c)
                 \<and> (phase c = Arg (spectrum ! i)
                      \<or> (Im (spectrum ! i) = 0 \<and> Re (spectrum ! i) \<le> 0
                           \<and> (phase c = pi \<or> (phase c = - pi \<and> snd (signs i)))))))"
proof -
  obtain b spectrum where run: "m_fft = Some b" "fft points n b = Some spectrum"
    and cs: "cs = take (min k n)
                (qsort compare_coeffs_by_amplitude (map (coefficient signs n spectrum) [0..<n]))"
    using fourier_analyze_Some [OF assms] by blast
  let ?all = "map (coefficient signs n spectrum) [0..<n]"
  have "0 \<le> amplitude c \<and> frequency c \<in> \<int> \<and> - pi \<le> phase c \<and> phase c \<le> pi
      \<and> (\<exists>i<n. amplitude c = cmod (spectrum ! i)
           \<and> phase c = carg (signs i) (spectrum ! i)
           \<and> spectrum ! i = complex_of_real (amplitude c) * cis (phase c)
           \<and> (phase c = Arg (spectrum ! i)
                \<or> (Im (spectrum ! i) = 0 \<and> Re (spectrum ! i) \<le> 0
                     \<and> (phase c = pi \<or> (phase c = - pi \<and> snd (signs i))))))"
    if "c \<in> set cs" for c
  proof -
    from that have "c \<in> set (qsort compare_coeffs_by_amplitude ?all)"
      unfolding cs by (rule in_set_takeD)
    then obtain i where i: "i < n" "c = coefficient signs n spectrum i"
      unfolding qsort_contractD(3) [OF assms(1)] by auto
    have "0 \<le> amplitude c" "frequency c \<in> \<int>"
      by (simp_all add: i(2) coefficient_def)
    moreover have "- pi \<le> phase c" "phase c \<le> pi"
      using carg_bounded [of "signs i" "spectrum ! i"] by (simp_all add: i(2) coefficient_def)
    moreover have "amplitude c = cmod (spectrum ! i)" "phase c = carg (signs i) (spectrum ! i)"
      by (simp_all add: i(2) coefficient_def)
    moreover have "spectrum ! i = complex_of_real (amplitude c) * cis (phase c)"
      using carg_polar [of "spectrum ! i" "signs i"] by (simp add: i(2) coefficient_def)
    moreover have "phase c = Arg (spectrum ! i)
        \<or> (Im (spectrum ! i) = 0 \<and> Re (spectrum ! i) \<le> 0
             \<and> (phase c = pi \<or> (phase c = - pi \<and> snd (signs i))))"
      using carg_cases [of "signs i" "spectrum ! i"] by (simp add: i(2) coefficient_def)
    ultimately show ?thesis
      using i(1) by blast
  qed
  with run show ?thesis
    by blast
qed

theorem coefficient_invariants_witness:
  "qsort_contract insertion_sort compare_coeffs_by_amplitude
   \<and> length [- 1 :: complex] = 1
   \<and> malloc_ok (Some [0 :: complex]) 1
   \<and> malloc_ok (Some [zero_coefficient]) 1
   \<and> malloc_ok (Some [zero_coefficient]) (min 1 1)
   \<and> fourier_analyze insertion_sort negative_imaginary_zeros (Some [0]) (Some [zero_coefficient])
        (Some [zero_coefficient]) [- 1] 1 1
      = Some \<lparr>coefficients = Some [\<lparr>amplitude = 1, frequency = 0, phase = - pi\<rparr>], count_r = 1\<rparr>
   \<and> (\<exists>b spectrum. Some [0 :: complex] = Some b \<and> fft [- 1] 1 b = Some spectrum
     \<and> (\<forall>c\<in>set [\<lparr>amplitude = 1, frequency = 0, phase = - pi\<rparr>].
            0 \<le> amplitude c \<and> frequency c \<in> \<int> \<and> - pi \<le> phase c \<and> phase c \<le> pi
            \<and> (\<exists>i<1. amplitude c = cmod (spectrum ! i)
                 \<and> phase c = carg (negative_imaginary_zeros i) (spectrum ! i)
                 \<and> spectrum ! i = complex_of_real (amplitude c) * cis (phase c)
                 \<and> (phase c = Arg (spectrum ! i)
                      \<or> (Im (spectrum ! i) = 0 \<and> Re (spectrum ! i) \<le> 0
                           \<and> (phase c = pi
                                \<or> (phase c = - pi \<and> snd (negative_imaginary_zeros i))))))))"
proof -
  have 1: "length [- 1 :: complex] = 1"
    by simp
  have 2: "malloc_ok (Some [0 :: complex]) 1"
    and 3: "malloc_ok (Some [zero_coefficient]) 1"
    and 4: "malloc_ok (Some [zero_coefficient]) (min 1 1)"
    by (simp_all add: malloc_ok_def)
  have 5: "coefficients \<lparr>coefficients = Some [\<lparr>amplitude = 1, frequency = 0, phase = - pi\<rparr>],
      count_r = 1\<rparr> = Some [\<lparr>amplitude = 1, frequency = 0, phase = - pi\<rparr>]"
    by simp
  note inst = coefficient_invariants [OF insertion_sort_contract 1 2 3 4 fourier_analyze_minus_one 5]
  then show ?thesis
    using insertion_sort_contract 1 2 3 4 fourier_analyze_minus_one by blast
qed

text \<open>
  The ranking, below \<open>2 ^ 31\<close> points: with every allocation successful, \<open>n \<ge> 1\<close> points
  and \<open>k \<ge> 1\<close> requested, \<^verbatim>\<open>fourier_analyze\<close> returns exactly \<open>min k n\<close> coefficients, in
  non-increasing order of amplitude, and their amplitudes are the \<open>min k n\<close> largest of
  the spectrum (the first \<open>min k n\<close> of its moduli in descending order).
\<close>

lemma fourier_analyze_ranking:
  assumes q: "qsort_contract qsort compare_coeffs_by_amplitude"
    and n: "0 < n" "0 < k" "n < 2 ^ 31" "length points = n"
    and blocks: "length b_fft = n" "length b_all = n" "length b_res = min k n"
  shows "\<exists>spectrum cs. fft points n b_fft = Some spectrum
      \<and> fourier_analyze qsort signs (Some b_fft) (Some b_all) (Some b_res) points n k
          = Some \<lparr>coefficients = Some cs, count_r = min k n\<rparr>
      \<and> length cs = min k n
      \<and> sorted_wrt (\<lambda>a b. amplitude b \<le> amplitude a) cs
      \<and> map amplitude cs = take (min k n) (rev (sort (map cmod spectrum)))"
proof -
  let ?spectrum = "map (dft_sum points n) [0..<n]"
  let ?all = "map (coefficient signs n ?spectrum) [0..<n]"
  let ?sorted = "qsort compare_coeffs_by_amplitude ?all"
  have run: "fft points n b_fft = Some ?spectrum"
    using n(3,4) blocks(1) by (rule fft_below_2_31)
  have res: "fourier_analyze qsort signs (Some b_fft) (Some b_all) (Some b_res) points n k
      = Some \<lparr>coefficients = Some (take (min k n) ?sorted), count_r = min k n\<rparr>"
    using q n(1,2,4) blocks run by (rule fourier_analyze_eval)
  have len: "length (take (min k n) ?sorted) = min k n"
    using qsort_contractD(2) [OF q, of ?all] by simp
  have "sorted_wrt (\<lambda>a b. amplitude b \<le> amplitude a) ?sorted"
    using qsort_contractD(4) [OF q, of ?all] by (simp add: compare_le_0_iff)
  then have sorted: "sorted_wrt (\<lambda>a b. amplitude b \<le> amplitude a) (take (min k n) ?sorted)"
    by (rule sorted_wrt_take)
  have "map amplitude ?sorted = rev (sort (map cmod ?spectrum))"
    using q by (rule amplitudes_descending) simp
  then have "map amplitude (take (min k n) ?sorted) = take (min k n) (rev (sort (map cmod ?spectrum)))"
    by (simp only: take_map [symmetric])
  with run res len sorted show ?thesis
    by blast
qed

text \<open>
  C5 (the claim: the ranking above, for every \<open>n \<ge> 1\<close>). On \<open>2 ^ 31\<close> points, with every
  allocation successful, the call of \<^verbatim>\<open>fft\<close> evaluates \<^verbatim>\<open>1 << 31\<close> in \<^verbatim>\<open>int\<close>, and
  \<^verbatim>\<open>fourier_analyze\<close> returns no result.
\<close>

theorem fourier_analyze_int_shift_overflow:
  "fourier_analyze insertion_sort positive_zeros (Some (replicate (2 ^ 31) 0))
     (Some (replicate (2 ^ 31) zero_coefficient)) (Some [zero_coefficient])
     (replicate (2 ^ 31) 0) (2 ^ 31) 1 = None"
proof -
  have "fft (replicate (2 ^ 31) 0) (2 ^ 31) (replicate (2 ^ 31) 0) = None"
    by (rule fft_overflow) simp
  moreover have "(0::nat) < 2 ^ 31" "(0::nat) < 1"
    by simp_all
  ultimately show ?thesis
    by (intro fourier_analyze_fft_None)
qed

text \<open>
  C7, as stated, fails twice. When the first allocation of \<^verbatim>\<open>fourier_analyze\<close> fails the
  result is the very value returned for an input without points, so nothing in it
  signals the failure; and \<^verbatim>\<open>ifft\<close> writes through the pointer that a failed \<^verbatim>\<open>malloc\<close>
  returned.
\<close>

theorem allocation_failure_not_signalled:
  "fourier_analyze insertion_sort positive_zeros None None None [1] 1 1
     = Some \<lparr>coefficients = None, count_r = 0\<rparr>
   \<and> fourier_analyze insertion_sort positive_zeros (Some []) (Some []) (Some []) [] 0 1
     = Some \<lparr>coefficients = None, count_r = 0\<rparr>
   \<and> ifft None [1] 1 [0] = None"
  by (simp add: fourier_analyze_def ifft_def is_power_of_2_def)

text \<open>
  C7, amended: when an allocation of \<^verbatim>\<open>fourier_analyze\<close> fails (the forward transform,
  where it was reached, having returned), the function returns the empty result
  (\<^verbatim>\<open>coefficients = NULL\<close>, \<^verbatim>\<open>count = 0\<close>) without fault; this is the value it returns for
  degenerate input (\<open>n = 0\<close> or \<open>requested_count = 0\<close>), whatever the other arguments.
\<close>

theorem allocation_failure_empty_result:
  assumes "length points = n" and "malloc_ok m_fft n" and "malloc_ok m_all n"
    and "\<forall>b. m_fft = Some b \<longrightarrow> fft points n b \<noteq> None"
    and "m_fft = None \<or> m_all = None \<or> m_res = None"
  shows "fourier_analyze qsort signs m_fft m_all m_res points n k
           = Some \<lparr>coefficients = None, count_r = 0\<rparr>
     \<and> fourier_analyze qsort signs m_fft' m_all' m_res' points' 0 k'
           = Some \<lparr>coefficients = None, count_r = 0\<rparr>
     \<and> fourier_analyze qsort signs m_fft' m_all' m_res' points' n' 0
           = Some \<lparr>coefficients = None, count_r = 0\<rparr>"
proof -
  have "fourier_analyze qsort signs m_fft m_all m_res points n k = Some empty_result"
    using assms by (intro fourier_analyze_no_memory) simp_all
  moreover have "fourier_analyze qsort signs m_fft' m_all' m_res' points' 0 k' = Some empty_result"
    "fourier_analyze qsort signs m_fft' m_all' m_res' points' n' 0 = Some empty_result"
    by (simp_all add: fourier_analyze_degenerate)
  ultimately show ?thesis
    by (simp add: empty_result_def)
qed

theorem allocation_failure_empty_result_witness:
  "length [1 :: complex] = 1 \<and> malloc_ok (Some [0 :: complex]) 1
   \<and> malloc_ok (None :: FourierCoefficient list option) 1
   \<and> fft [1] 1 [0] \<noteq> None
   \<and> (Some [0 :: complex] = None \<or> (None :: FourierCoefficient list option) = None
        \<or> Some [zero_coefficient] = None)
   \<and> fourier_analyze insertion_sort positive_zeros (Some [0]) None (Some [zero_coefficient]) [1] 1 1
           = Some \<lparr>coefficients = None, count_r = 0\<rparr>
   \<and> fourier_analyze insertion_sort positive_zeros (Some []) (Some []) (Some []) [] 0 1
           = Some \<lparr>coefficients = None, count_r = 0\<rparr>
   \<and> fourier_analyze insertion_sort positive_zeros (Some [0]) (Some [zero_coefficient]) (Some []) [1] 1 0
           = Some \<lparr>coefficients = None, count_r = 0\<rparr>"
proof -
  have 1: "length [1 :: complex] = 1"
    by simp
  have 2: "malloc_ok (Some [0 :: complex]) 1"
    and 3: "malloc_ok (None :: FourierCoefficient list option) 1"
    by (simp_all add: malloc_ok_def)
  have 4: "\<forall>b. Some [0 :: complex] = Some b \<longrightarrow> fft [1] 1 b \<noteq> None"
    using fft_eq_dft_below_2_31(2) [of 1 "[1]" "[0]" "[0]"] by simp
  have 5: "Some [0 :: complex] = None \<or> (None :: FourierCoefficient list option) = None
        \<or> Some [zero_coefficient] = None"
    by simp
  have 6: "fft [1] 1 [0] \<noteq> None"
    using 4 by simp
  show ?thesis
    using 1 2 3 6 5
      allocation_failure_empty_result [OF 1 2 3 4 5, of insertion_sort positive_zeros 1 "Some []" "Some []"
        "Some []" "[]" 1 ]
      allocation_failure_empty_result [OF 1 2 3 4 5, of insertion_sort positive_zeros 1 "Some [0]"
        "Some [zero_coefficient]" "Some []" "[1]" 1 1]
    by simp
qed

section \<open>The epicycle chain\<close>

lemma epicycles_loop:
  fixes cs :: "FourierCoefficient list" and buf :: "complex list" and t :: real
  defines "ps \<equiv> (\<lambda>k. \<Sum>i<k. contribution t (cs ! i))"
  defines "body \<equiv> (\<lambda>i (cumulative, positions). do {
             c \<leftarrow> load cs i;
             let contribution =
               complex_of_real (amplitude c)
                 * exp (\<i> * complex_of_real (phase c + t * frequency c));
             let cumulative = cumulative + contribution;
             positions \<leftarrow> store_if positions (i + 1) cumulative;
             Some (cumulative, positions)
           })"
  assumes "m \<le> length cs"
  shows "for_loop 0 m body (0, None) = Some (ps m, None)"
    and "m < length buf \<Longrightarrow> for_loop 0 m body (0, Some (0 # tl buf))
           = Some (ps m, Some (map ps [0..<Suc m] @ drop (Suc m) buf))"
proof -
  let ?I = "\<lambda>i s. s = (ps i, None :: complex list option)"
  have "\<exists>s'. for_loop 0 m body (0, None) = Some s' \<and> ?I m s'"
  proof (rule for_loop_invariant)
    show "(0, None) = (ps 0, None)" by (simp add: ps_def)
    show "0 \<le> m" by simp
    show "\<exists>s'. body j s = Some s' \<and> s' = (ps (Suc j), None)" if "j < m" "s = (ps j, None)" for j s
      using that assms(3) by (simp add: body_def load_def store_if_def ps_def contribution_def Let_def)
  qed
  then show "for_loop 0 m body (0, None) = Some (ps m, None)" by simp
next
  assume m: "m < length buf"
  let ?I = "\<lambda>i s. s = (ps i, Some (map ps [0..<Suc i] @ drop (Suc i) buf))"
  have "\<exists>s'. for_loop 0 m body (0, Some (0 # tl buf)) = Some s' \<and> ?I m s'"
  proof (rule for_loop_invariant)
    from m have "buf \<noteq> []" by auto
    then show "(0, Some (0 # tl buf)) = (ps 0, Some (map ps [0..<Suc 0] @ drop (Suc 0) buf))"
      by (simp add: ps_def drop_Suc)
    show "0 \<le> m" by simp
    show "\<exists>s'. body j s = Some s' \<and> s' = (ps (Suc j), Some (map ps [0..<Suc (Suc j)] @ drop (Suc (Suc j)) buf))"
      if "j < m" and s: "s = (ps j, Some (map ps [0..<Suc j] @ drop (Suc j) buf))" for j s
    proof -
      have j: "j < length cs" "Suc j < length buf"
        using that assms(3) m by simp_all
      have "ps j + contribution t (cs ! j) = ps (Suc j)"
        by (simp add: ps_def)
      moreover have "(map ps [0..<Suc j] @ drop (Suc j) buf)[Suc j := ps (Suc j)]
          = (map ps [0..<Suc j] @ [ps (Suc j)]) @ drop (Suc (Suc j)) buf"
        using j by (intro update_frontier) simp_all
      ultimately show ?thesis
        using j unfolding s body_def
        by (simp add: load_def store_if_def store_def contribution_def Let_def)
    qed
  qed
  then show "for_loop 0 m body (0, Some (0 # tl buf))
           = Some (ps m, Some (map ps [0..<Suc m] @ drop (Suc m) buf))" by simp
qed

lemma epicycles_at_time_eval:
  assumes r: "analysis_result r"
  shows "epicycles_at_time (Some r) t None = Some (partial_sum t (coeff_list r) (count_r r), None)"
    and "count_r r < length buf \<Longrightarrow>
         epicycles_at_time (Some r) t (Some buf) =
           Some (partial_sum t (coeff_list r) (count_r r),
                 Some (map (partial_sum t (coeff_list r)) [0..<Suc (count_r r)]
                         @ drop (Suc (count_r r)) buf))"
proof -
  have upd0: "buf[0 := 0] = 0 # tl buf" if "buf \<noteq> []" for buf :: "complex list"
    using that by (cases buf) simp_all
  show "epicycles_at_time (Some r) t None = Some (partial_sum t (coeff_list r) (count_r r), None)"
  proof (cases "coefficients r = None \<or> count_r r = 0")
    case True
    with r have "count_r r = 0"
      by (auto simp: analysis_result_def)
    with True show ?thesis
      by (auto simp: epicycles_at_time_def store_if_def partial_sum_def)
  next
    case False
    then obtain cs where cs: "coefficients r = Some cs" "length cs = count_r r"
      using r by (auto simp: analysis_result_def)
    with False epicycles_loop(1) [of "count_r r" cs t] show ?thesis
      by (simp add: epicycles_at_time_def store_if_def partial_sum_def [abs_def] coeff_list_def)
  qed
  assume m: "count_r r < length buf"
  then have "buf \<noteq> []" by auto
  show "epicycles_at_time (Some r) t (Some buf) =
           Some (partial_sum t (coeff_list r) (count_r r),
                 Some (map (partial_sum t (coeff_list r)) [0..<Suc (count_r r)]
                         @ drop (Suc (count_r r)) buf))"
  proof (cases "coefficients r = None \<or> count_r r = 0")
    case True
    with r have "count_r r = 0"
      by (auto simp: analysis_result_def)
    with True \<open>buf \<noteq> []\<close> show ?thesis
      by (auto simp: epicycles_at_time_def store_if_def store_def partial_sum_def upd0 drop_Suc)
  next
    case False
    then obtain cs where cs: "coefficients r = Some cs" "length cs = count_r r"
      using r by (auto simp: analysis_result_def)
    with False m \<open>buf \<noteq> []\<close> epicycles_loop(2) [of "count_r r" cs buf t] show ?thesis
      by (simp add: epicycles_at_time_def store_if_def store_def partial_sum_def [abs_def]
          coeff_list_def upd0)
  qed
qed

lemma epicycles_at_time_null:
  shows "epicycles_at_time None t None = Some (0, None)"
    and "buf \<noteq> [] \<Longrightarrow> epicycles_at_time None t (Some buf) = Some (0, Some ([0] @ drop 1 buf))"
  by (cases buf; simp add: epicycles_at_time_def store_if_def store_def)+

text \<open>
  C6: for an analysis result with \<open>count = m\<close> and any time \<open>t\<close>, \<^verbatim>\<open>epicycles_at_time\<close>
  writes exactly the \<open>m + 1\<close> first entries of \<^verbatim>\<open>positions\<close> (an array with room for
  them): entry 0 is the origin, entry \<open>k\<close> for \<open>1 \<le> k \<le> m\<close> is the sum of the
  contributions \<open>amplitude * exp (\<i> * (phase + t * frequency))\<close> of the first \<open>k\<close>
  coefficients, and entry \<open>m\<close> is the value returned. For an empty result (\<open>m = 0\<close>, or
  the pointer \<^verbatim>\<open>result\<close> null) the value returned is the origin and the trail is the
  origin alone.
\<close>

theorem epicycles_trail:
  assumes "analysis_result r" and "count_r r < length buf"
  shows "(\<exists>tip tr.
      epicycles_at_time (Some r) t (Some buf) = Some (tip, Some (tr @ drop (count_r r + 1) buf))
      \<and> length tr = count_r r + 1
      \<and> tr ! 0 = 0
      \<and> (\<forall>k. 1 \<le> k \<and> k \<le> count_r r \<longrightarrow> tr ! k = (\<Sum>i<k. contribution t (coeff_list r ! i)))
      \<and> tr ! count_r r = tip
      \<and> (count_r r = 0 \<longrightarrow> tip = 0 \<and> tr = [0]))
    \<and> epicycles_at_time None t (Some buf) = Some (0, Some ([0] @ drop 1 buf))"
proof -
  let ?ps = "partial_sum t (coeff_list r)"
  let ?tr = "map ?ps [0..<Suc (count_r r)]"
  have run: "epicycles_at_time (Some r) t (Some buf)
      = Some (?ps (count_r r), Some (?tr @ drop (count_r r + 1) buf))"
    using epicycles_at_time_eval(2) [OF assms] by simp
  have first: "?tr ! 0 = 0"
    by (simp add: partial_sum_def nth_append)
  have sums: "?tr ! k = (\<Sum>i<k. contribution t (coeff_list r ! i))" if "k \<le> count_r r" for k
    using that nth_map_upt [of k "Suc (count_r r)" 0 ?ps] by (simp add: partial_sum_def)
  have tip: "?tr ! count_r r = ?ps (count_r r)"
    using nth_map_upt [of "count_r r" "Suc (count_r r)" 0 ?ps] by simp
  have "buf \<noteq> []"
    using assms(2) by auto
  show ?thesis
  proof (intro exI conjI allI impI)
    show "epicycles_at_time (Some r) t (Some buf)
      = Some (?ps (count_r r), Some (?tr @ drop (count_r r + 1) buf))"
      by (rule run)
    show "length ?tr = count_r r + 1"
      by simp
    show "?tr ! 0 = 0"
      by (rule first)
    show "?tr ! k = (\<Sum>i<k. contribution t (coeff_list r ! i))" if "1 \<le> k \<and> k \<le> count_r r" for k
      using that by (intro sums) simp
    show "?tr ! count_r r = ?ps (count_r r)"
      by (rule tip)
    show "?ps (count_r r) = 0" "?tr = [0]" if "count_r r = 0"
      using that by (simp_all add: partial_sum_def)
    show "epicycles_at_time None t (Some buf) = Some (0, Some ([0] @ drop 1 buf))"
      using \<open>buf \<noteq> []\<close> by (rule epicycles_at_time_null(2))
  qed
qed

theorem epicycles_trail_witness:
  "analysis_result example_result \<and> count_r example_result < length [7, 7, 7 :: complex]
   \<and> (\<exists>tip tr.
      epicycles_at_time (Some example_result) 0 (Some [7, 7, 7])
        = Some (tip, Some (tr @ drop (count_r example_result + 1) [7, 7, 7]))
      \<and> length tr = count_r example_result + 1
      \<and> tr ! 0 = 0
      \<and> (\<forall>k. 1 \<le> k \<and> k \<le> count_r example_result \<longrightarrow>
            tr ! k = (\<Sum>i<k. contribution 0 (coeff_list example_result ! i)))
      \<and> tr ! count_r example_result = tip
      \<and> (count_r example_result = 0 \<longrightarrow> tip = 0 \<and> tr = [0]))
   \<and> epicycles_at_time None 0 (Some [7, 7, 7]) = Some (0, Some ([0] @ drop 1 [7, 7, 7]))"
proof -
  have 1: "analysis_result example_result"
    by (simp add: analysis_result_def example_result_def)
  have 2: "count_r example_result < length [7, 7, 7 :: complex]"
    by (simp add: example_result_def)
  show ?thesis
    using 1 2 epicycles_trail [OF 1 2, of 0] by blast
qed

text \<open>The run of the example, evaluated: one circle of radius 2 at \<open>t = 0\<close>.\<close>

lemma epicycles_example_value:
  "epicycles_at_time (Some example_result) 0 (Some [7, 7, 7]) = Some (2, Some [0, 2, 7])"
  using epicycles_at_time_eval(2) [of example_result "[7, 7, 7]" 0]
  by (simp add: analysis_result_def example_result_def partial_sum_def coeff_list_def
      contribution_def lessThan_Suc)

text \<open>
  C10: the value returned by \<^verbatim>\<open>epicycles_at_time\<close> is the same whether \<^verbatim>\<open>positions\<close> is
  an array (with room for \<open>count + 1\<close> entries) or \<^verbatim>\<open>NULL\<close>; only the recording of the
  trail differs. This holds for an analysis result and for a null \<^verbatim>\<open>result\<close>.
\<close>

theorem epicycles_tip_without_positions:
  assumes "analysis_result r" and "count_r r < length buf"
  shows "(\<exists>tip ps. epicycles_at_time (Some r) t None = Some (tip, None)
           \<and> epicycles_at_time (Some r) t (Some buf) = Some (tip, Some ps))
       \<and> (\<exists>ps. epicycles_at_time None t None = Some (0, None)
           \<and> epicycles_at_time None t (Some buf) = Some (0, Some ps))"
proof
  show "\<exists>tip ps. epicycles_at_time (Some r) t None = Some (tip, None)
           \<and> epicycles_at_time (Some r) t (Some buf) = Some (tip, Some ps)"
    using epicycles_at_time_eval [OF assms(1)] assms(2) by simp
  have "buf \<noteq> []" using assms(2) by auto
  then show "\<exists>ps. epicycles_at_time None t None = Some (0, None)
           \<and> epicycles_at_time None t (Some buf) = Some (0, Some ps)"
    by (simp add: epicycles_at_time_null)
qed

theorem epicycles_tip_without_positions_witness:
  "analysis_result example_result \<and> count_r example_result < length [7, 7, 7 :: complex]
   \<and> (\<exists>tip ps. epicycles_at_time (Some example_result) 1 None = Some (tip, None)
           \<and> epicycles_at_time (Some example_result) 1 (Some [7, 7, 7]) = Some (tip, Some ps))
   \<and> (\<exists>ps. epicycles_at_time None 1 None = Some (0, None)
           \<and> epicycles_at_time None 1 (Some [7, 7, 7]) = Some (0, Some ps))"
proof -
  have 1: "analysis_result example_result"
    by (simp add: analysis_result_def example_result_def)
  have 2: "count_r example_result < length [7, 7, 7 :: complex]"
    by (simp add: example_result_def)
  show ?thesis
    using 1 2 epicycles_tip_without_positions [OF 1 2, of 1] by blast
qed

end
